theory Spec2Isabelle
  imports Main "HOL-Library.Word" "HOL-Library.AList"
begin

unbundle bit_operations_syntax

section \<open>Values, objects and errors\<close>

text \<open>
  The numbers of the model are the integers of magnitude at most \<open>2 ^ 53\<close>: each of
  them is a double, and its text form is its decimal digits. Floating point is outside
  the model. \<open>int_of\<close> is the integer of a number, \<open>number_of\<close> the number of an
  integer in that range.
\<close>

typedef number = "{i :: int. \<bar>i\<bar> \<le> 2 ^ 53}"
  morphisms int_of number_of
  by (rule exI [of _ 0]) simp

text \<open>
  The values an entity, a change set or a continuation token carries.
  A JavaScript object is an association list in insertion order, each key once.
  A property that is absent reads as \<open>undefined\<close>: the lookup \<open>map_of obj k\<close> returns
  \<open>None\<close>. A property holding \<open>undefined\<close> is identified with an absent one (the code
  itself tests presence with \<open>!== undefined\<close>, and the document client drops such
  attributes). Strings are lists of the characters U+0000 to U+00FF.
\<close>

datatype jsval =
    JNull
  | JBool bool
  | JNum number
  | JStr string
  | JArr "jsval list"
  | JObj "(string \<times> jsval) list"

type_synonym obj = "(string \<times> jsval) list"

text \<open>
  \<open>errors.js\<close>: \<open>DatabaseError\<close> prefixes its message. \<open>SyntaxError\<close> is the
  platform's error, raised by the \<open>RegExp\<close> constructor and by \<open>JSON.parse\<close>.
  \<open>Unmodelled\<close> is no error of the program: it marks an input the model does not decide.
\<close>

datatype error = DatabaseError string | SyntaxError string | Unmodelled string

definition new_DatabaseError :: "string \<Rightarrow> error" where
  "new_DatabaseError message = DatabaseError (''DatabaseError: '' @ message)"

subsection \<open>Text form of a value\<close>

fun digit_char :: "nat \<Rightarrow> char" where
  "digit_char n = char_of (48 + n mod 10)"

fun show_nat :: "nat \<Rightarrow> string" where
  "show_nat n = (if n < 10 then [digit_char n] else show_nat (n div 10) @ [digit_char n])"

declare show_nat.simps [simp del]

definition show_int :: "int \<Rightarrow> string" where
  "show_int i = (if i < 0 then CHR ''-'' # show_nat (nat (- i)) else show_nat (nat i))"

fun join :: "string \<Rightarrow> string list \<Rightarrow> string" where
  "join sep [] = []"
| "join sep [x] = x"
| "join sep (x # y # ys) = x @ sep @ join sep (y # ys)"

text \<open>
  \<open>String(value)\<close>, the conversion \<open>String.prototype.replace\<close> applies to its second
  argument: an array joins its elements with commas (\<open>null\<close> as the empty text), an
  object is \<open>[object Object]\<close>, the absent value is \<open>undefined\<close>.
\<close>

fun to_string :: "jsval \<Rightarrow> string" where
  "to_string JNull = ''null''"
| "to_string (JBool b) = (if b then ''true'' else ''false'')"
| "to_string (JNum n) = show_int (int_of n)"
| "to_string (JStr s) = s"
| "to_string (JArr xs) = join '','' (map (\<lambda>x. if x = JNull then [] else to_string x) xs)"
| "to_string (JObj kvs) = ''[object Object]''"

definition to_string_opt :: "jsval option \<Rightarrow> string" where
  "to_string_opt v = (case v of None \<Rightarrow> ''undefined'' | Some x \<Rightarrow> to_string x)"

section \<open>Key resolution: \<open>DynamoCollection.#key\<close>\<close>

definition char_code :: "char \<Rightarrow> nat" where
  "char_code c = of_char c"

definition is_digit :: "char \<Rightarrow> bool" where
  "is_digit c = (48 \<le> char_code c \<and> char_code c \<le> 57)"

text \<open>The class \<open>\w\<close> of a regular expression without flags.\<close>

definition is_word :: "char \<Rightarrow> bool" where
  "is_word c = ((97 \<le> char_code c \<and> char_code c \<le> 122) \<or> (65 \<le> char_code c \<and> char_code c \<le> 90)
     \<or> is_digit c \<or> c = CHR ''_'')"

text \<open>
  A placeholder at the head of the text: \<open>{\<close>, a non-empty maximal run of word
  characters, \<open>}\<close>. Returns the field name and the text after the closing brace.
\<close>

definition placeholder :: "string \<Rightarrow> (string \<times> string) option" where
  "placeholder s =
     (case s of
        [] \<Rightarrow> None
      | c # cs \<Rightarrow>
          if c = CHR ''{'' then
            (case dropWhile is_word cs of
               [] \<Rightarrow> None
             | d # rest \<Rightarrow>
                 if d = CHR ''}'' \<and> takeWhile is_word cs \<noteq> [] then Some (takeWhile is_word cs, rest)
                 else None)
          else None)"

lemma placeholder_shorter:
  "placeholder s = Some (f, rest) \<Longrightarrow> length rest < length s"
proof -
  assume a: "placeholder s = Some (f, rest)"
  then obtain c cs where s: "s = c # cs"
    by (cases s) (auto simp: placeholder_def)
  from a s obtain d where d: "dropWhile is_word cs = d # rest"
    by (auto simp: placeholder_def split: if_splits list.splits)
  have "length (dropWhile is_word cs) \<le> length cs"
    by (rule length_dropWhile_le)
  with d s show ?thesis by simp
qed

text \<open>
  \<open>pattern.matchAll(/{(\w+)}/g)\<close>: the field names of the placeholders, left to right;
  after a match the scan goes on behind it, otherwise at the next character.
\<close>

function matchAll :: "string \<Rightarrow> string list" where
  "matchAll [] = []"
| "matchAll (c # cs) =
     (case placeholder (c # cs) of
        Some (f, rest) \<Rightarrow> f # matchAll rest
      | None \<Rightarrow> matchAll cs)"
  by pat_completeness auto
termination
  by (relation "measure length") (auto dest: placeholder_shorter)

text \<open>
  The replacement text of \<open>String.prototype.replace\<close> is not taken literally:
  \<open>$$\<close> is a dollar sign, \<open>$&\<close> the matched text, \<open>$`\<close> the text before the match and
  \<open>$'\<close> the text after it. The expression built from a placeholder has no capture
  groups, so \<open>$1\<close> and the like stay as they are.
\<close>

fun expand :: "string \<Rightarrow> string \<Rightarrow> string \<Rightarrow> string \<Rightarrow> string" where
  "expand m left right [] = []"
| "expand m left right [c] = [c]"
| "expand m left right (c # d # ds) =
     (if c = CHR ''$'' \<and> d = CHR ''$'' then CHR ''$'' # expand m left right ds
      else if c = CHR ''$'' \<and> d = CHR ''&'' then m @ expand m left right ds
      else if c = CHR ''$'' \<and> d = CHR 0x60 then left @ expand m left right ds
      else if c = CHR ''$'' \<and> d = CHR 0x27 then right @ expand m left right ds
      else c # expand m left right (d # ds))"

definition starts_with :: "string \<Rightarrow> string \<Rightarrow> bool" where
  "starts_with m s = (take (length m) s = m)"

text \<open>
  \<open>str.replace(new RegExp(match, 'g'), value)\<close> for a pattern that matches the text
  \<open>m\<close> literally: every occurrence, left to right, without overlap. \<open>seen\<close> is the
  part of the original text already passed.
\<close>

function replace_from :: "string \<Rightarrow> string \<Rightarrow> string \<Rightarrow> string \<Rightarrow> string" where
  "replace_from m v seen [] = []"
| "replace_from m v seen (c # cs) =
     (if m \<noteq> [] \<and> starts_with m (c # cs) then
        expand m seen (drop (length m) (c # cs)) v
          @ replace_from m v (seen @ m) (drop (length m) (c # cs))
      else c # replace_from m v (seen @ [c]) cs)"
  by pat_completeness auto
termination
  by (relation "measure (\<lambda>(m, v, seen, s). length s)") (auto simp: neq_Nil_conv)

definition replace_all :: "string \<Rightarrow> string \<Rightarrow> string \<Rightarrow> string" where
  "replace_all s m v = replace_from m v [] s"

text \<open>
  The loop of \<open>#key\<close>. \<open>new RegExp('{' + field + '}', 'g')\<close> throws a \<open>SyntaxError\<close>
  when the field name is all digits (a braced quantifier with nothing to repeat; the
  message is the engine's, which names the expression); every other placeholder text
  is a pattern that matches itself literally.
\<close>

fun key_loop :: "string list \<Rightarrow> obj \<Rightarrow> string \<Rightarrow> error + string" where
  "key_loop [] data k = Inr k"
| "key_loop (field # tokens) data k =
     (if list_all is_digit field then
        Inl (SyntaxError (''Invalid regular expression: /{'' @ field @ ''}/g: Nothing to repeat''))
      else key_loop tokens data
             (replace_all k (CHR ''{'' # field @ ''}'') (to_string_opt (map_of data field))))"

definition key :: "string \<Rightarrow> obj \<Rightarrow> error + string" where
  "key pattern data = key_loop (matchAll pattern) data pattern"

section \<open>The store wrapper: \<open>DynamoDB\<close>\<close>

text \<open>
  An operation of a batch: \<open>{Put: {Item, TableName}}\<close>, \<open>{Delete: {Key, TableName}}\<close> or
  \<open>{Update: {Key, UpdateExpression, ExpressionAttributeNames, ExpressionAttributeValues,
  TableName}}\<close>. The last argument of each constructor is the table name, absent until
  \<open>transactWrite\<close> injects it.
\<close>

record update_fields =
  UpdateExpression :: string
  ExpressionAttributeNames :: "(string \<times> string) list"
  ExpressionAttributeValues :: obj

datatype op =
    Put obj "string option"
  | Delete obj "string option"
  | Update obj update_fields "string option"

record DynamoDB =
  table :: string
  transactLimit :: nat

text \<open>
  The document client is the environment. It is modelled by the state it is in: the
  responses it will give to the calls to come, in the order of the calls (success once
  they are used up), the calls it has received, and the order in which waits that are
  pending at the same time will end: each number of \<open>schedule\<close> picks one of the
  pending waits, counted from the left (the first one once the schedule is used up).
\<close>

datatype response = Succeeded | Failed string

datatype call = TransactWriteCall "op list" | BatchWriteCall string "obj list"

record client =
  responses :: "response list"
  calls :: "call list"
  schedule :: "nat list"

definition send :: "call \<Rightarrow> client \<Rightarrow> response \<times> client" where
  "send c st =
     (case responses st of
        [] \<Rightarrow> (Succeeded, st\<lparr>calls := calls st @ [c]\<rparr>)
      | r # rs \<Rightarrow> (r, st\<lparr>responses := rs, calls := calls st @ [c]\<rparr>))"

text \<open>\<open>lodash.chunk\<close>: slices of \<open>n\<close> elements, the last one shorter; nothing for size 0.\<close>

function chunk :: "'a list \<Rightarrow> nat \<Rightarrow> 'a list list" where
  "chunk array n =
     (if array = [] \<or> n < 1 then [] else take n array # chunk (drop n array) n)"
  by pat_completeness auto
termination
  by (relation "measure (\<lambda>(array, n). length array)") auto

declare chunk.simps [simp del]

lemma chunk_part_length: "part \<in> set (chunk array n) \<Longrightarrow> length part \<le> n"
proof (induction array n rule: chunk.induct)
  case (1 array n)
  show ?case
  proof (cases "array = [] \<or> n < 1")
    case True
    with 1(2) show ?thesis by (simp add: chunk.simps)
  next
    case False
    with 1 show ?thesis by (subst (asm) (2) chunk.simps) auto
  qed
qed

text \<open>What a write resolves to: \<open>true\<close>, or the array of the chunks' results.\<close>

datatype written = ResTrue | ResAll "written list"

definition with_table :: "string \<Rightarrow> string option \<Rightarrow> string option" where
  "with_table t name = (case name of None \<Rightarrow> Some t | Some n \<Rightarrow> if n = [] then Some t else Some n)"

fun transact_item :: "string \<Rightarrow> op \<Rightarrow> op" where
  "transact_item t (Put item name) = Put item (with_table t name)"
| "transact_item t (Delete k name) = Delete k (with_table t name)"
| "transact_item t (Update k u name) = Update k u (with_table t name)"

text \<open>\<open>error.message.match(/TransactionConflict/)\<close>\<close>

fun contains_text :: "string \<Rightarrow> string \<Rightarrow> bool" where
  "contains_text needle [] = (needle = [])"
| "contains_text needle (c # cs) = (starts_with needle (c # cs) \<or> contains_text needle cs)"

subsection \<open>Asynchronous calls\<close>

text \<open>
  \<open>transactWrite\<close> and \<open>putBatch\<close> are \<open>async\<close> functions: a call runs until its first
  \<open>await\<close>, and goes on from there when what it waits for has ended. Under
  \<open>Promise.all\<close> several calls wait at the same time. A call in progress is the place
  where it waits:
  \<^item> \<open>TransactWait params attempts r\<close>: \<open>transactWrite\<close> has sent \<open>params\<close> to the store on
    attempt \<open>attempts\<close> and waits for the answer, which is \<open>r\<close>;
  \<^item> \<open>TransactSleep params attempts\<close>: it waits for the timer after a conflict;
  \<^item> \<open>BatchWait r\<close>: \<open>putBatch\<close> waits for the answer \<open>r\<close> of the store;
  \<^item> \<open>Settled r\<close>: the call has returned or thrown;
  \<^item> \<open>All e members\<close>: \<open>Promise.all\<close> over the calls \<open>members\<close>; \<open>e\<close> is the error of
    the member that was rejected first, if any.
\<close>

datatype running =
    TransactWait call nat response
  | TransactSleep call nat
  | BatchWait response
  | Settled "error + written"
  | All "error option" "running list"

text \<open>
  The head of the loop of \<open>transactWrite\<close>, with the counter \<open>attempts\<close> of the turns
  made so far: the counter is raised and tested, and the call is sent.
\<close>

definition transact_attempt :: "call \<Rightarrow> nat \<Rightarrow> client \<Rightarrow> running \<times> client" where
  "transact_attempt params attempts st =
     (if attempts + 1 > 20 then
        (Settled (Inl (new_DatabaseError ''Max attempts retrying TransactionConflict'')), st)
      else
        (case send params st of (r, st') \<Rightarrow> (TransactWait params (attempts + 1) r, st')))"

text \<open>
  The handlers of the answer: success ends the loop with \<open>true\<close>, a conflict waits for
  the timer, any other failure is thrown as a \<open>DatabaseError\<close>.
\<close>

definition transact_answer :: "call \<Rightarrow> nat \<Rightarrow> response \<Rightarrow> running" where
  "transact_answer params attempts r =
     (case r of
        Succeeded \<Rightarrow> Settled (Inr ResTrue)
      | Failed message \<Rightarrow>
          if contains_text ''TransactionConflict'' message then TransactSleep params attempts
          else Settled (Inl (new_DatabaseError message)))"

definition batch_answer :: "response \<Rightarrow> running" where
  "batch_answer r =
     (case r of
        Succeeded \<Rightarrow> Settled (Inr ResTrue)
      | Failed message \<Rightarrow> Settled (Inl (new_DatabaseError message)))"

text \<open>The number of places where a call in progress waits.\<close>

fun pending :: "running \<Rightarrow> nat" where
  "pending (TransactWait params attempts r) = 1"
| "pending (TransactSleep params attempts) = 1"
| "pending (BatchWait r) = 1"
| "pending (Settled r) = 0"
| "pending (All e members) = sum_list (map pending members)"

text \<open>
  What \<open>Promise.all\<close> makes of its members: it is rejected with the error of the first
  member rejected, and fulfilled with the array of the results when all are fulfilled.
\<close>

fun first_rejected :: "(error + written) option list \<Rightarrow> error option" where
  "first_rejected [] = None"
| "first_rejected (Some (Inl e) # rs) = Some e"
| "first_rejected (r # rs) = first_rejected rs"

fun fulfilled :: "(error + written) option list \<Rightarrow> written list option" where
  "fulfilled [] = Some []"
| "fulfilled (Some (Inr v) # rs) = map_option ((#) v) (fulfilled rs)"
| "fulfilled (r # rs) = None"

text \<open>What a call in progress has settled to, if it has.\<close>

fun outcome :: "running \<Rightarrow> (error + written) option" where
  "outcome (Settled r) = Some r"
| "outcome (All e members) =
     (case e of
        Some x \<Rightarrow> Some (Inl x)
      | None \<Rightarrow> map_option (\<lambda>vs. Inr (ResAll vs)) (fulfilled (map outcome members)))"
| "outcome r = None"

definition promise_all :: "running list \<Rightarrow> running" where
  "promise_all members = All (first_rejected (map outcome members)) members"

text \<open>
  The wait number \<open>i\<close> of a call in progress ends, and the call goes on to its next
  wait or to its end. The waits are counted from the left.
\<close>

fun resume :: "nat \<Rightarrow> running \<Rightarrow> client \<Rightarrow> running \<times> client"
  and resume_member :: "nat \<Rightarrow> running list \<Rightarrow> client \<Rightarrow> running list \<times> client" where
  "resume i (TransactWait params attempts r) st = (transact_answer params attempts r, st)"
| "resume i (TransactSleep params attempts) st = transact_attempt params attempts st"
| "resume i (BatchWait r) st = (batch_answer r, st)"
| "resume i (Settled r) st = (Settled r, st)"
| "resume i (All e members) st =
     (case resume_member i members st of
        (members', st') \<Rightarrow>
          (All (case e of Some x \<Rightarrow> Some x | None \<Rightarrow> first_rejected (map outcome members')) members',
           st'))"
| "resume_member i [] st = ([], st)"
| "resume_member i (m # members) st =
     (if i < pending m then (case resume i m st of (m', st') \<Rightarrow> (m' # members, st'))
      else (case resume_member (i - pending m) members st of
              (members', st') \<Rightarrow> (m # members', st')))"

text \<open>A bound on the number of waits a call in progress still has before it.\<close>

fun effort :: "running \<Rightarrow> nat" where
  "effort (TransactWait params attempts r) = 2 * (21 - attempts) + 2"
| "effort (TransactSleep params attempts) = 2 * (21 - attempts) + 1"
| "effort (BatchWait r) = 1"
| "effort (Settled r) = 0"
| "effort (All e members) = sum_list (map effort members)"

lemma resume_effort:
  "i < pending r \<Longrightarrow> effort (fst (resume i r st)) < effort r"
  "i < sum_list (map pending ms) \<Longrightarrow>
     sum_list (map effort (fst (resume_member i ms st))) < sum_list (map effort ms)"
proof (induction i r st and i ms st rule: resume_resume_member.induct)
  case (1 i params attempts r st)
  then show ?case by (simp add: transact_answer_def split: response.splits)
next
  case (2 i params attempts st)
  show ?case
  proof (cases "19 < attempts")
    case True
    then show ?thesis by (simp add: transact_attempt_def)
  next
    case False
    then have "21 - attempts = Suc (20 - attempts)" by simp
    with False show ?thesis by (simp add: transact_attempt_def split: prod.splits)
  qed
next
  case (5 i e members st)
  then show ?case by (simp add: case_prod_beta)
next
  case (7 i m members st)
  then show ?case by (auto split: prod.splits)
qed (simp_all add: batch_answer_def split: response.splits)

lemma resume_less:
  "i < pending r \<Longrightarrow> (case resume i r st of (r', st') \<Rightarrow> effort r') < effort r"
  by (simp add: case_prod_beta resume_effort)

text \<open>
  The waits end in the order the environment decides, until none is left: with more
  than one wait pending, the next number of the schedule picks the one that ends.
\<close>

function run :: "running \<Rightarrow> client \<Rightarrow> running \<times> client" where
  "run r st =
     (if pending r = 0 then (r, st)
      else if pending r = 1 then (case resume 0 r st of (r', st') \<Rightarrow> run r' st')
      else
        (case schedule st of
           [] \<Rightarrow> (case resume 0 r st of (r', st') \<Rightarrow> run r' st')
         | i # rest \<Rightarrow>
             (case resume (i mod pending r) r (st\<lparr>schedule := rest\<rparr>) of (r', st') \<Rightarrow> run r' st')))"
  by pat_completeness auto
termination
  by (relation "measure (\<lambda>(r, st). effort r)") (simp_all add: resume_less)

declare run.simps [simp del]

text \<open>
  What the caller of an asynchronous function gets once nothing is pending. The second
  case does not occur: a call in progress with no wait pending is settled.
\<close>

definition settled :: "running \<Rightarrow> error + written" where
  "settled r = (case outcome r of Some x \<Rightarrow> x | None \<Rightarrow> Inl (Unmodelled ''pending''))"

definition complete :: "running \<times> client \<Rightarrow> (error + written) \<times> client" where
  "complete started = (case run (fst started) (snd started) of (r, st) \<Rightarrow> (settled r, st))"

text \<open>
  \<open>parts.map(f)\<close> for an asynchronous \<open>f\<close>: the calls are started one after the other,
  each running to its first wait.
\<close>

fun start_each :: "('a \<Rightarrow> client \<Rightarrow> running \<times> client) \<Rightarrow> 'a list \<Rightarrow> client \<Rightarrow> running list \<times> client" where
  "start_each f [] st = ([], st)"
| "start_each f (part # parts) st =
     (case f part st of (r, st1) \<Rightarrow>
        (case start_each f parts st1 of (rs, st2) \<Rightarrow> (r # rs, st2)))"

lemma start_each_cong [fundef_cong]:
  "parts = parts' \<Longrightarrow> st = st' \<Longrightarrow> (\<And>part s. part \<in> set parts' \<Longrightarrow> f part s = g part s)
     \<Longrightarrow> start_each f parts st = start_each g parts' st'"
  by (induction parts' arbitrary: parts st st') auto

subsection \<open>\<open>transactWrite\<close>\<close>

text \<open>
  The call \<open>transactWrite(ops)\<close> up to its first wait: over the limit it is
  \<open>Promise.all\<close> over the calls for the chunks, each started in turn; within the limit
  it enters its loop with the counter at 0.
\<close>

function start_transactWrite :: "DynamoDB \<Rightarrow> op list \<Rightarrow> client \<Rightarrow> running \<times> client" where
  "start_transactWrite d ops st =
     (if length ops > transactLimit d then
        (case start_each (start_transactWrite d) (chunk ops (transactLimit d)) st of
           (members, st') \<Rightarrow> (promise_all members, st'))
      else transact_attempt (TransactWriteCall (map (transact_item (table d)) ops)) 0 st)"
  by pat_completeness auto
termination
  by (relation "measure (\<lambda>(d, ops, st). length ops)") (auto dest: chunk_part_length)

declare start_transactWrite.simps [simp del]

text \<open>\<open>await transactWrite(ops)\<close>: the result, and the client when nothing is pending.\<close>

definition transactWrite :: "DynamoDB \<Rightarrow> op list \<Rightarrow> client \<Rightarrow> (error + written) \<times> client" where
  "transactWrite d ops st = complete (start_transactWrite d ops st)"

subsection \<open>\<open>putBatch\<close>\<close>

function start_putBatch :: "DynamoDB \<Rightarrow> obj list \<Rightarrow> client \<Rightarrow> running \<times> client" where
  "start_putBatch d items st =
     (if length items > transactLimit d then
        (case start_each (start_putBatch d) (chunk items (transactLimit d)) st of
           (members, st') \<Rightarrow> (promise_all members, st'))
      else (case send (BatchWriteCall (table d) items) st of (r, st') \<Rightarrow> (BatchWait r, st')))"
  by pat_completeness auto
termination
  by (relation "measure (\<lambda>(d, items, st). length items)") (auto dest: chunk_part_length)

declare start_putBatch.simps [simp del]

definition putBatch :: "DynamoDB \<Rightarrow> obj list \<Rightarrow> client \<Rightarrow> (error + written) \<times> client" where
  "putBatch d items st = complete (start_putBatch d items st)"

subsection \<open>\<open>updateExpression\<close>\<close>

text \<open>
  \<open>updateExpression(object)\<close> deletes \<open>pk\<close> and \<open>sk\<close> from the object it is given, then
  enumerates what is left. It returns the expression; the second component is the
  object as the call leaves it.
\<close>

definition update_step :: "string \<times> jsval \<Rightarrow> update_fields \<Rightarrow> update_fields" where
  "update_step kv u =
     \<lparr>UpdateExpression =
        (if UpdateExpression u = [] then ''set #'' @ fst kv @ '' = :'' @ fst kv
         else UpdateExpression u @ '', #'' @ fst kv @ '' = :'' @ fst kv),
      ExpressionAttributeNames = AList.update (CHR ''#'' # fst kv) (fst kv) (ExpressionAttributeNames u),
      ExpressionAttributeValues = AList.update (CHR '':'' # fst kv) (snd kv) (ExpressionAttributeValues u)\<rparr>"

definition updateExpression :: "obj \<Rightarrow> update_fields \<times> obj" where
  "updateExpression object =
     (let object' = AList.delete ''sk'' (AList.delete ''pk'' object)
      in (fold update_step object'
            \<lparr>UpdateExpression = [], ExpressionAttributeNames = [], ExpressionAttributeValues = []\<rparr>,
          object'))"

section \<open>The access-pattern collection: \<open>DynamoCollection\<close>\<close>

text \<open>
  An access pattern \<open>{pk, sk, fields, when}\<close>; \<open>fields\<close> and \<open>when\<close> may be
  \<open>undefined\<close>.
\<close>

record pattern =
  pk :: string
  sk :: string
  fields_opt :: "string list option"
  "when" :: "(obj \<Rightarrow> bool) option"

record DynamoCollection =
  dynamo :: DynamoDB
  keys :: "pattern list"

text \<open>
  \<open>lodash.isequal\<close> on the values of the model: arrays element by element, objects key
  by key whatever the order of the keys, everything else by identity of the value.
\<close>

fun isEqual :: "jsval \<Rightarrow> jsval \<Rightarrow> bool" where
  "isEqual (JArr xs) (JArr ys) = list_all2 isEqual xs ys"
| "isEqual (JObj xs) (JObj ys) =
     (length xs = length ys
      \<and> list_all (\<lambda>kv. case map_of ys (fst kv) of None \<Rightarrow> False | Some w \<Rightarrow> isEqual (snd kv) w) xs)"
| "isEqual a b = (a = b)"

text \<open>\<open>{...a, ...b}\<close>: the properties of \<open>a\<close>, then those of \<open>b\<close> over them.\<close>

definition spread :: "('k \<times> 'v) list \<Rightarrow> ('k \<times> 'v) list \<Rightarrow> ('k \<times> 'v) list" where
  "spread a b = fold (\<lambda>kv acc. AList.update (fst kv) (snd kv) acc) b a"

text \<open>\<open>o[k] = v\<close>, where \<open>v\<close> may be \<open>undefined\<close>.\<close>

definition assign :: "obj \<Rightarrow> string \<Rightarrow> jsval option \<Rightarrow> obj" where
  "assign ob k v = (case v of None \<Rightarrow> AList.delete k ob | Some x \<Rightarrow> AList.update k x ob)"

text \<open>
  The first loop of \<open>update\<close>: the fields of the change set that deep-equal the
  entity's are deleted from the change set.
\<close>

definition unchanged :: "obj \<Rightarrow> string \<times> jsval \<Rightarrow> bool" where
  "unchanged data kv = (case map_of data (fst kv) of None \<Rightarrow> False | Some d \<Rightarrow> isEqual d (snd kv))"

definition strip_unchanged :: "obj \<Rightarrow> obj \<Rightarrow> obj" where
  "strip_unchanged data changes = filter (\<lambda>kv. \<not> unchanged data kv) changes"

text \<open>The loop over \<open>fields\<close>, on \<open>(prev, curr, currChanges)\<close>, the second written \<open>currItem\<close>.\<close>

definition pull_field :: "obj \<Rightarrow> obj \<Rightarrow> string \<Rightarrow> obj \<times> obj \<times> obj \<Rightarrow> obj \<times> obj \<times> obj" where
  "pull_field data changes field pcc =
     (case pcc of (prev, currItem, currChanges) \<Rightarrow>
        (case map_of changes field of
           Some v \<Rightarrow> (assign prev field (map_of data field), assign currItem field (Some v),
                      assign currChanges field (Some v))
         | None \<Rightarrow> (assign prev field (map_of data field), assign currItem field (map_of data field),
                    currChanges)))"

text \<open>The object \<open>{pk: this.#key(pk, data), sk: this.#key(sk, data)}\<close>, as a pair.\<close>

definition resolve_keys :: "pattern \<Rightarrow> obj \<Rightarrow> error + (string \<times> string)" where
  "resolve_keys p data =
     (case key (pk p) data of
        Inl e \<Rightarrow> Inl e
      | Inr a \<Rightarrow> (case key (sk p) data of Inl e \<Rightarrow> Inl e | Inr b \<Rightarrow> Inr (a, b)))"

definition key_obj :: "string \<times> string \<Rightarrow> obj" where
  "key_obj k = [(''pk'', JStr (fst k)), (''sk'', JStr (snd k))]"

text \<open>
  One turn of the loop over the access patterns. It returns the operations the pattern
  adds to the batch and the change set as the turn leaves it: without \<open>fields\<close>,
  \<open>currChanges\<close> is the change set itself, and \<open>updateExpression\<close> deletes from it.
  An error is the \<open>SyntaxError\<close> thrown inside \<open>#key\<close>.
\<close>

definition update_pattern :: "obj \<Rightarrow> pattern \<Rightarrow> obj \<Rightarrow> error + (op list \<times> obj)" where
  "update_pattern data p changes =
     (case (case fields_opt p of
              Some fs \<Rightarrow> fold (pull_field data changes) fs ([], [], [])
            | None \<Rightarrow> (data, spread data changes, changes)) of
        (prev, currItem, currChanges) \<Rightarrow>
          (if (case when p of None \<Rightarrow> False | Some w \<Rightarrow> w data \<and> \<not> w (spread data changes)) then
             (case resolve_keys p data of
                Inl e \<Rightarrow> Inl e
              | Inr k \<Rightarrow> Inr ([Delete (key_obj k) None], changes))
           else if (case when p of None \<Rightarrow> False | Some w \<Rightarrow> \<not> w (spread data changes)) then
             Inr ([], changes)
           else
             (case resolve_keys p data of
                Inl e \<Rightarrow> Inl e
              | Inr prevKey \<Rightarrow>
                  (case resolve_keys p (spread data changes) of
                     Inl e \<Rightarrow> Inl e
                   | Inr currKey \<Rightarrow>
                       (if fst prevKey \<noteq> fst currKey \<or> snd prevKey \<noteq> snd currKey then
                          Inr ([Delete (key_obj prevKey) None,
                                Put (spread currItem (key_obj currKey)) None], changes)
                        else if currChanges \<noteq> [] then
                          (case updateExpression currChanges of
                             (updateFields, left) \<Rightarrow>
                               Inr ([Update (key_obj currKey) updateFields None],
                                    if fields_opt p = None then left else changes))
                        else Inr ([], changes))))))"

fun update_patterns :: "obj \<Rightarrow> pattern list \<Rightarrow> obj \<Rightarrow> op list \<Rightarrow> (error + op list) \<times> obj" where
  "update_patterns data [] changes ops = (Inr ops, changes)"
| "update_patterns data (p # ps) changes ops =
     (case update_pattern data p changes of
        Inl e \<Rightarrow> (Inl e, changes)
      | Inr r \<Rightarrow> update_patterns data ps (snd r) (ops @ fst r))"

text \<open>
  \<open>update(data, changes, {extraOps})\<close>. The result is the outcome (an error thrown,
  \<open>undefined\<close> when there is nothing to write, or what \<open>transactWrite\<close> resolves to),
  the caller's change set as the call leaves it, and the client.
\<close>

definition update ::
  "DynamoCollection \<Rightarrow> obj \<Rightarrow> obj \<Rightarrow> op list option \<Rightarrow> client
     \<Rightarrow> (error + written option) \<times> obj \<times> client" where
  "update c data changes extraOps st =
     (case update_patterns data (keys c) (strip_unchanged data changes) [] of
        (Inl e, changes') \<Rightarrow> (Inl e, changes', st)
      | (Inr ops, changes') \<Rightarrow>
          (let ops' = (case extraOps of None \<Rightarrow> ops | Some extra \<Rightarrow> ops @ extra)
           in if length ops' = 0 then (Inr None, changes', st)
              else (case transactWrite (dynamo c) ops' st of
                      (r, st') \<Rightarrow> (map_sum id Some r, changes', st'))))"

section \<open>The partitioner: \<open>partition\<close>\<close>

text \<open>
  \<open>crypto.createHash('sha1').update(key).digest('hex')\<close> is the platform's; it is the
  parameter \<open>hash\<close>, from a key to the hexadecimal text of its digest. \<open>digest(key)\<close> is
  the array of the character codes of that text, and \<open>code_at x i\<close> is \<open>x[i]\<close> as an
  operand of a shift, where \<open>undefined\<close> counts as 0.
\<close>

definition code_at :: "string \<Rightarrow> nat \<Rightarrow> nat" where
  "code_at x i = (if i < length x then char_code (x ! i) else 0)"

text \<open>\<open>((a << 24) | (b << 16) | (c << 8) | d) >>> 0\<close> on 32-bit integers.\<close>

definition hashValueHash :: "nat \<Rightarrow> nat \<Rightarrow> nat \<Rightarrow> nat \<Rightarrow> nat" where
  "hashValueHash a b c d =
     unat (push_bit 24 (of_nat a :: 32 word) OR push_bit 16 (of_nat b) OR push_bit 8 (of_nat c)
           OR of_nat d)"

definition hashValue :: "(string \<Rightarrow> string) \<Rightarrow> string \<Rightarrow> nat" where
  "hashValue hash k =
     hashValueHash (code_at (hash k) 3) (code_at (hash k) 2) (code_at (hash k) 1) (code_at (hash k) 0)"

text \<open>
  \<open>hashValue(key) % partitions\<close> for an integer \<open>partitions\<close>: the remainder has the
  sign of the dividend, which is not negative, and is \<open>NaN\<close> (here \<open>None\<close>) for 0.
\<close>

definition partition :: "(string \<Rightarrow> string) \<Rightarrow> string \<Rightarrow> int \<Rightarrow> int option" where
  "partition hash k partitions =
     (if partitions = 0 then None else Some (int (hashValue hash k) mod \<bar>partitions\<bar>))"

section \<open>Filters of \<open>DynamoDB.query\<close>\<close>

text \<open>\<open>str.split(sep)\<close> for a separator of one character.\<close>

fun split_on :: "char \<Rightarrow> string \<Rightarrow> string list" where
  "split_on sep [] = [[]]"
| "split_on sep (c # cs) =
     (if c = sep then [] # split_on sep cs
      else (case split_on sep cs of [] \<Rightarrow> [[c]] | p # ps \<Rightarrow> (c # p) # ps))"

text \<open>
  \<open>Number(value)\<close> on a text. The model decides the texts that denote an integer in
  decimal notation of magnitude at most \<open>2 ^ 53\<close> (an empty or blank text is 0) and
  the texts that cannot be a numeral at all. For any other text that begins like a
  numeral (fraction, exponent, radix prefix, \<open>Infinity\<close>, or a malformed one) the
  answer is \<open>Undecided\<close>: it would need floating point.
\<close>

datatype numeric = NaN | Integer int | Undecided

definition is_space :: "char \<Rightarrow> bool" where
  "is_space c = (char_code c \<in> {9, 10, 11, 12, 13, 32, 160})"

definition trim :: "string \<Rightarrow> string" where
  "trim s = rev (dropWhile is_space (rev (dropWhile is_space s)))"

fun digits_value :: "string \<Rightarrow> int \<Rightarrow> int" where
  "digits_value [] acc = acc"
| "digits_value (c # cs) acc = digits_value cs (10 * acc + (int (char_code c) - 48))"

definition within_exact :: "int \<Rightarrow> numeric" where
  "within_exact i = (if \<bar>i\<bar> \<le> 2 ^ 53 then Integer i else Undecided)"

definition Number :: "string \<Rightarrow> numeric" where
  "Number s =
     (case trim s of
        [] \<Rightarrow> Integer 0
      | c # cs \<Rightarrow>
          if list_all is_digit (c # cs) then within_exact (digits_value (c # cs) 0)
          else if c = CHR ''-'' \<and> cs \<noteq> [] \<and> list_all is_digit cs then
            within_exact (- digits_value cs 0)
          else if c = CHR ''+'' \<and> cs \<noteq> [] \<and> list_all is_digit cs then
            within_exact (digits_value cs 0)
          else if is_digit c \<or> c \<in> set ''+-.I'' then Undecided
          else NaN)"

text \<open>What a filter binds to \<open>:field\<close>.\<close>

datatype filter_value = FBool bool | FNum int | FStr string | FUndecided

definition filter_literal :: "string \<Rightarrow> filter_value" where
  "filter_literal v = (if v = ''true'' then FBool True else if v = ''false'' then FBool False else FStr v)"

text \<open>
  The value of one filter: \<open>rest.join(' ')\<close>, replaced by \<open>Number(value)\<close> when that is
  truthy, then \<open>true\<close> or \<open>false\<close> for these two texts.
\<close>

definition filter_value_of :: "string \<Rightarrow> filter_value" where
  "filter_value_of v =
     (case Number v of
        Integer n \<Rightarrow> if n \<noteq> 0 then FNum n else filter_literal v
      | NaN \<Rightarrow> filter_literal v
      | Undecided \<Rightarrow> FUndecided)"

text \<open>
  One filter of \<open>query\<close>: the attribute name bound to \<open>#field\<close>, the value bound to
  \<open>:field\<close>, and the expression text. A missing criteria reads \<open>undefined\<close>.
\<close>

record filter_binding =
  binds_name :: "string \<times> string"
  binds_value :: "string \<times> filter_value"
  expression :: string

definition query_filter :: "string \<Rightarrow> filter_binding" where
  "query_filter f =
     (let parts = split_on CHR '' '' f;
          field = hd parts;
          criteria = (case tl parts of [] \<Rightarrow> ''undefined'' | c # _ \<Rightarrow> c);
          v = join '' '' (drop 2 parts)
      in \<lparr>binds_name = (CHR ''#'' # field, field),
          binds_value = (CHR '':'' # field, filter_value_of v),
          expression = CHR ''#'' # field @ '' '' @ criteria @ '' :'' @ field\<rparr>)"

section \<open>The cursor codec: \<open>util.js\<close>\<close>

subsection \<open>Buffers\<close>

text \<open>
  \<open>Buffer.from(text)\<close>: the UTF-8 bytes of the text. A character below U+0080 is one
  byte, the others of the model two.
\<close>

definition utf8_char :: "char \<Rightarrow> nat list" where
  "utf8_char c =
     (if char_code c < 128 then [char_code c]
      else [192 + char_code c div 64, 128 + char_code c mod 64])"

definition utf8_bytes :: "string \<Rightarrow> nat list" where
  "utf8_bytes s = concat (map utf8_char s)"

text \<open>
  The characters of the base64 alphabet \<open>A\<close>-\<open>Z\<close>, \<open>a\<close>-\<open>z\<close>, \<open>0\<close>-\<open>9\<close>, \<open>+\<close>, \<open>/\<close>, by
  their index.
\<close>

definition base64_char :: "nat \<Rightarrow> char" where
  "base64_char i =
     (if i < 26 then char_of (65 + i)
      else if i < 52 then char_of (71 + i)
      else if i < 62 then char_of (i - 4)
      else if i = 62 then CHR ''+''
      else CHR ''/'')"

text \<open>\<open>buffer.toString('base64')\<close>: three bytes give four characters, with padding.\<close>

fun base64_text :: "nat list \<Rightarrow> string" where
  "base64_text [] = []"
| "base64_text [a] =
     [base64_char (a div 4), base64_char (a mod 4 * 16), CHR ''='', CHR ''='']"
| "base64_text [a, b] =
     [base64_char (a div 4), base64_char (a mod 4 * 16 + b div 16),
      base64_char (b mod 16 * 4), CHR ''='']"
| "base64_text (a # b # c # bytes) =
     [base64_char (a div 4), base64_char (a mod 4 * 16 + b div 16),
      base64_char (b mod 16 * 4 + c div 64), base64_char (c mod 64)] @ base64_text bytes"

text \<open>
  The value of a character in \<open>Buffer.from(text, 'base64')\<close>: the standard alphabet,
  and the URL-safe \<open>-\<close> (code 45) and \<open>_\<close> (code 95).
\<close>

definition unbase64 :: "char \<Rightarrow> nat option" where
  "unbase64 c =
     (let n = char_code c in
      if 65 \<le> n \<and> n \<le> 90 then Some (n - 65)
      else if 97 \<le> n \<and> n \<le> 122 then Some (n - 71)
      else if 48 \<le> n \<and> n \<le> 57 then Some (n + 4)
      else if n = 43 \<or> n = 45 then Some 62
      else if n = 47 \<or> n = 95 then Some 63
      else None)"

fun sextet_bytes :: "nat list \<Rightarrow> nat list" where
  "sextet_bytes (a # b # c # d # rest) =
     [a * 4 + b div 16, b mod 16 * 16 + c div 4, c mod 4 * 64 + d] @ sextet_bytes rest"
| "sextet_bytes [a, b, c] = [a * 4 + b div 16, b mod 16 * 16 + c div 4]"
| "sextet_bytes [a, b] = [a * 4 + b div 16]"
| "sextet_bytes rest = []"

text \<open>
  \<open>Buffer.from(text, 'base64')\<close> never throws: decoding stops at the first \<open>=\<close>,
  and a character that is neither in the alphabet nor \<open>=\<close> is skipped.
\<close>

definition base64_bytes :: "string \<Rightarrow> nat list" where
  "base64_bytes s = sextet_bytes (List.map_filter unbase64 (takeWhile (\<lambda>c. c \<noteq> CHR ''='') s))"

text \<open>\<open>buffer.toString('ascii')\<close>: the highest bit of every byte is dropped.\<close>

definition ascii_text :: "nat list \<Rightarrow> string" where
  "ascii_text bytes = map (\<lambda>b. char_of (b mod 128)) bytes"

definition base64Encode :: "string \<Rightarrow> string" where
  "base64Encode data = base64_text (utf8_bytes data)"

definition base64Decode :: "string \<Rightarrow> string" where
  "base64Decode data = ascii_text (base64_bytes data)"

subsection \<open>JSON\<close>

text \<open>The hexadecimal digit of \<open>n mod 16\<close>, in lower case.\<close>

definition hex_digit :: "nat \<Rightarrow> char" where
  "hex_digit n = (if n mod 16 < 10 then char_of (48 + n mod 16) else char_of (87 + n mod 16))"

definition quote_char :: "char \<Rightarrow> string" where
  "quote_char c =
     (if c = CHR 0x22 then [CHR 0x5C, CHR 0x22]
      else if c = CHR 0x5C then [CHR 0x5C, CHR 0x5C]
      else if c = CHR 0x08 then [CHR 0x5C, CHR ''b'']
      else if c = CHR 0x0C then [CHR 0x5C, CHR ''f'']
      else if c = CHR 0x0A then [CHR 0x5C, CHR ''n'']
      else if c = CHR 0x0D then [CHR 0x5C, CHR ''r'']
      else if c = CHR 0x09 then [CHR 0x5C, CHR ''t'']
      else if char_code c < 32 then
        [CHR 0x5C, CHR ''u'', CHR ''0'', CHR ''0'', hex_digit (char_code c div 16), hex_digit (char_code c)]
      else [c])"

definition quote :: "string \<Rightarrow> string" where
  "quote s = CHR 0x22 # concat (map quote_char s) @ [CHR 0x22]"

text \<open>\<open>JSON.stringify(value)\<close> on the values of the model.\<close>

fun JSON_stringify :: "jsval \<Rightarrow> string" where
  "JSON_stringify JNull = ''null''"
| "JSON_stringify (JBool b) = (if b then ''true'' else ''false'')"
| "JSON_stringify (JNum n) = show_int (int_of n)"
| "JSON_stringify (JStr s) = quote s"
| "JSON_stringify (JArr xs) = ''['' @ join '','' (map JSON_stringify xs) @ '']''"
| "JSON_stringify (JObj kvs) =
     ''{'' @ join '','' (map (\<lambda>kv. quote (fst kv) @ '':'' @ JSON_stringify (snd kv)) kvs) @ ''}''"

definition is_json_space :: "char \<Rightarrow> bool" where
  "is_json_space c = (char_code c \<in> {9, 10, 13, 32})"

definition skip_ws :: "string \<Rightarrow> string" where
  "skip_ws s = dropWhile is_json_space s"

definition bind_result :: "error + 'a \<Rightarrow> ('a \<Rightarrow> error + 'b) \<Rightarrow> error + 'b" where
  "bind_result r f = (case r of Inl e \<Rightarrow> Inl e | Inr x \<Rightarrow> f x)"

definition hex_value :: "char \<Rightarrow> nat option" where
  "hex_value c =
     (let n = char_code c in
      if 48 \<le> n \<and> n \<le> 57 then Some (n - 48)
      else if 97 \<le> n \<and> n \<le> 102 then Some (n - 87)
      else if 65 \<le> n \<and> n \<le> 70 then Some (n - 55)
      else None)"

definition unexpected :: "error + 'a" where
  "unexpected = Inl (SyntaxError ''Unexpected token in JSON'')"

definition unexpected_end :: "error + 'a" where
  "unexpected_end = Inl (SyntaxError ''Unexpected end of JSON input'')"

text \<open>
  The escape after a backslash: the character it denotes and the text behind it. A
  \<open>\u\<close> escape above U+00FF is outside the strings of the model.
\<close>

definition parse_escape :: "string \<Rightarrow> error + (char \<times> string)" where
  "parse_escape s =
     (case s of
        [] \<Rightarrow> unexpected_end
      | e # r \<Rightarrow>
          if e = CHR 0x22 \<or> e = CHR 0x5C \<or> e = CHR ''/'' then Inr (e, r)
          else if e = CHR ''b'' then Inr (CHR 0x08, r)
          else if e = CHR ''f'' then Inr (CHR 0x0C, r)
          else if e = CHR ''n'' then Inr (CHR 0x0A, r)
          else if e = CHR ''r'' then Inr (CHR 0x0D, r)
          else if e = CHR ''t'' then Inr (CHR 0x09, r)
          else if e = CHR ''u'' then
            (case map hex_value (take 4 r) of
               [Some a, Some b, Some c, Some d] \<Rightarrow>
                 if a = 0 \<and> b = 0 then Inr (char_of (c * 16 + d), drop 4 r)
                 else Inl (Unmodelled ''character above U+00FF'')
             | _ \<Rightarrow> unexpected)
          else unexpected)"

lemma parse_escape_shorter: "parse_escape s = Inr (c, r) \<Longrightarrow> length r < length s"
  by (cases s)
     (auto simp: parse_escape_def unexpected_def unexpected_end_def
           split: if_splits list.splits option.splits)

text \<open>The characters of a string literal behind its opening quote, and the text behind it.\<close>

function parse_chars :: "string \<Rightarrow> error + (string \<times> string)" where
  "parse_chars [] = unexpected_end"
| "parse_chars (c # cs) =
     (if c = CHR 0x22 then Inr ([], cs)
      else if c = CHR 0x5C then
        (case parse_escape cs of
           Inl e \<Rightarrow> Inl e
         | Inr cr \<Rightarrow> bind_result (parse_chars (snd cr)) (\<lambda>sr. Inr (fst cr # fst sr, snd sr)))
      else if char_code c < 32 then Inl (SyntaxError ''Bad control character in string literal in JSON'')
      else bind_result (parse_chars cs) (\<lambda>sr. Inr (c # fst sr, snd sr)))"
  by pat_completeness auto
termination
  by (relation "measure length") (auto dest: parse_escape_shorter)

text \<open>
  A number literal. Only integers without fraction and exponent, of magnitude at most
  \<open>2 ^ 53\<close>, are numbers of the model; on any other literal the model does not decide.
\<close>

definition parse_unsigned :: "string \<Rightarrow> error + (int \<times> string)" where
  "parse_unsigned body =
     (let ds = (if body \<noteq> [] \<and> hd body = CHR ''0'' then ''0'' else takeWhile is_digit body);
          rest = drop (length ds) body
      in if ds = [] then (if body = [] then unexpected_end else unexpected)
         else if rest \<noteq> [] \<and> hd rest \<in> set ''.eE'' then Inl (Unmodelled ''fraction or exponent'')
         else if digits_value ds 0 > 2 ^ 53 then Inl (Unmodelled ''integer above 2^53'')
         else Inr (digits_value ds 0, rest))"

definition parse_number :: "string \<Rightarrow> error + (jsval \<times> string)" where
  "parse_number s =
     (if s \<noteq> [] \<and> hd s = CHR ''-'' then
        bind_result (parse_unsigned (tl s)) (\<lambda>vr. Inr (JNum (number_of (- fst vr)), snd vr))
      else bind_result (parse_unsigned s) (\<lambda>vr. Inr (JNum (number_of (fst vr)), snd vr)))"

text \<open>
  \<open>JSON.parse\<close> by recursive descent. \<open>fuel\<close> bounds the number of nested and
  successive values; \<open>JSON_parse\<close> gives more than the text can use. A key that occurs
  twice keeps its first place and its last value.
\<close>

fun parse_value :: "nat \<Rightarrow> string \<Rightarrow> error + (jsval \<times> string)"
  and parse_elements :: "nat \<Rightarrow> string \<Rightarrow> error + (jsval list \<times> string)"
  and parse_members :: "nat \<Rightarrow> string \<Rightarrow> error + ((string \<times> jsval) list \<times> string)" where
  "parse_value fuel s =
     (if fuel = 0 then Inl (Unmodelled ''fuel'')
      else
        (case skip_ws s of
           [] \<Rightarrow> unexpected_end
         | c # cs \<Rightarrow>
             if c = CHR 0x22 then bind_result (parse_chars cs) (\<lambda>sr. Inr (JStr (fst sr), snd sr))
             else if c = CHR ''['' then
               (if skip_ws cs \<noteq> [] \<and> hd (skip_ws cs) = CHR '']'' then Inr (JArr [], tl (skip_ws cs))
                else bind_result (parse_elements (fuel - 1) cs) (\<lambda>xr. Inr (JArr (fst xr), snd xr)))
             else if c = CHR ''{'' then
               (if skip_ws cs \<noteq> [] \<and> hd (skip_ws cs) = CHR ''}'' then Inr (JObj [], tl (skip_ws cs))
                else bind_result (parse_members (fuel - 1) cs)
                       (\<lambda>mr. Inr (JObj (spread [] (fst mr)), snd mr)))
             else if starts_with ''null'' (c # cs) then Inr (JNull, drop 4 (c # cs))
             else if starts_with ''true'' (c # cs) then Inr (JBool True, drop 4 (c # cs))
             else if starts_with ''false'' (c # cs) then Inr (JBool False, drop 5 (c # cs))
             else if c = CHR ''-'' \<or> is_digit c then parse_number (c # cs)
             else unexpected))"
| "parse_elements fuel s =
     (if fuel = 0 then Inl (Unmodelled ''fuel'')
      else
        bind_result (parse_value (fuel - 1) s) (\<lambda>vr.
          (case skip_ws (snd vr) of
             [] \<Rightarrow> unexpected_end
           | c # cs \<Rightarrow>
               if c = CHR '','' then
                 bind_result (parse_elements (fuel - 1) cs) (\<lambda>xr. Inr (fst vr # fst xr, snd xr))
               else if c = CHR '']'' then Inr ([fst vr], cs)
               else unexpected)))"
| "parse_members fuel s =
     (if fuel = 0 then Inl (Unmodelled ''fuel'')
      else
        (case skip_ws s of
           [] \<Rightarrow> unexpected_end
         | q # qs \<Rightarrow>
             if q \<noteq> CHR 0x22 then unexpected
             else
               bind_result (parse_chars qs) (\<lambda>kr.
                 (case skip_ws (snd kr) of
                    [] \<Rightarrow> unexpected_end
                  | d # ds \<Rightarrow>
                      if d \<noteq> CHR '':'' then unexpected
                      else
                        bind_result (parse_value (fuel - 1) ds) (\<lambda>vr.
                          (case skip_ws (snd vr) of
                             [] \<Rightarrow> unexpected_end
                           | c # cs \<Rightarrow>
                               if c = CHR '','' then
                                 bind_result (parse_members (fuel - 1) cs)
                                   (\<lambda>mr. Inr ((fst kr, fst vr) # fst mr, snd mr))
                               else if c = CHR ''}'' then Inr ([(fst kr, fst vr)], cs)
                               else unexpected))))))"

declare parse_value.simps [simp del] parse_elements.simps [simp del] parse_members.simps [simp del]

definition JSON_parse :: "string \<Rightarrow> error + jsval" where
  "JSON_parse text =
     bind_result (parse_value (2 * length text + 2) text)
       (\<lambda>vr. if skip_ws (snd vr) = [] then Inr (fst vr) else unexpected)"

subsection \<open>\<open>toCursor\<close> and \<open>fromCursor\<close>\<close>

definition toCursor :: "jsval \<Rightarrow> string" where
  "toCursor data = base64Encode (JSON_stringify data)"

definition fromCursor :: "string \<Rightarrow> error + jsval" where
  "fromCursor data = JSON_parse (base64Decode data)"

section \<open>Reference readings used by the properties\<close>

text \<open>
  The reading of key resolution as one simultaneous substitution: the template with
  every placeholder replaced by the text form of its field's value.
\<close>

function substitute :: "string \<Rightarrow> obj \<Rightarrow> string" where
  "substitute [] data = []"
| "substitute (c # cs) data =
     (case placeholder (c # cs) of
        Some (f, rest) \<Rightarrow> to_string_opt (map_of data f) @ substitute rest data
      | None \<Rightarrow> c # substitute cs data)"
  by pat_completeness auto
termination
  by (relation "measure (\<lambda>(s, data). length s)") (auto dest: placeholder_shorter)


text \<open>The call throws the platform's \<open>SyntaxError\<close>, whatever its message.\<close>

definition raises_SyntaxError :: "error + 'a \<Rightarrow> bool" where
  "raises_SyntaxError r = (case r of Inl (SyntaxError m) \<Rightarrow> True | _ \<Rightarrow> False)"

text \<open>Every opening brace of the template opens a placeholder.\<close>

function closed_braces :: "string \<Rightarrow> bool" where
  "closed_braces [] = True"
| "closed_braces (c # cs) =
     (case placeholder (c # cs) of
        Some (f, rest) \<Rightarrow> closed_braces rest
      | None \<Rightarrow> c \<noteq> CHR ''{'' \<and> closed_braces cs)"
  by pat_completeness auto
termination
  by (relation "measure length") (auto dest: placeholder_shorter)

text \<open>
  The template after the placeholders of the fields in \<open>S\<close> have been replaced: the
  state of the loop of \<open>#key\<close> between two turns.
\<close>

function partial_subst :: "string set \<Rightarrow> obj \<Rightarrow> string \<Rightarrow> string" where
  "partial_subst S data [] = []"
| "partial_subst S data (c # cs) =
     (case placeholder (c # cs) of
        Some (f, rest) \<Rightarrow>
          (if f \<in> S then to_string_opt (map_of data f) else CHR ''{'' # f @ ''}'')
            @ partial_subst S data rest
      | None \<Rightarrow> c # partial_subst S data cs)"
  by pat_completeness auto
termination
  by (relation "measure (\<lambda>(S, data, s). length s)") (auto dest: placeholder_shorter)


text \<open>What \<open>updateExpression\<close> leaves of the object it is given.\<close>

definition strip_keys :: "obj \<Rightarrow> obj" where
  "strip_keys ob = AList.delete ''sk'' (AList.delete ''pk'' ob)"

text \<open>
  The reading of the partitioner by the bytes of the digest: the first four bytes,
  the first one most significant, reduced modulo the number of partitions.
\<close>

definition digest_byte :: "string \<Rightarrow> nat \<Rightarrow> nat" where
  "digest_byte x i =
     (case (hex_value (x ! (2 * i)), hex_value (x ! (2 * i + 1))) of
        (Some h, Some l) \<Rightarrow> 16 * h + l
      | _ \<Rightarrow> 0)"

definition partition_of_digest_bytes :: "(string \<Rightarrow> string) \<Rightarrow> string \<Rightarrow> int \<Rightarrow> int" where
  "partition_of_digest_bytes hash k partitions =
     int (digest_byte (hash k) 0 * 2 ^ 24 + digest_byte (hash k) 1 * 2 ^ 16
          + digest_byte (hash k) 2 * 2 ^ 8 + digest_byte (hash k) 3) mod partitions"

text \<open>The values of the characters that \<open>Buffer.from(text, 'base64')\<close> decodes.\<close>

definition sextets :: "string \<Rightarrow> nat list" where
  "sextets s = List.map_filter unbase64 (takeWhile (\<lambda>c. c \<noteq> CHR ''='') s)"

text \<open>
  The association lists that are objects: every object of the value has each key once.
\<close>

fun well_formed :: "jsval \<Rightarrow> bool" where
  "well_formed (JArr xs) = (\<forall>x \<in> set xs. well_formed x)"
| "well_formed (JObj kvs) = (distinct (map fst kvs) \<and> (\<forall>kv \<in> set kvs. well_formed (snd kv)))"
| "well_formed v = True"

text \<open>Every character of every string and key of the token is below U+0080.\<close>

fun ascii_only :: "jsval \<Rightarrow> bool" where
  "ascii_only (JStr s) = (\<forall>c \<in> set s. char_code c < 128)"
| "ascii_only (JArr xs) = (\<forall>x \<in> set xs. ascii_only x)"
| "ascii_only (JObj kvs) =
     (\<forall>kv \<in> set kvs. (\<forall>c \<in> set (fst kv). char_code c < 128) \<and> ascii_only (snd kv))"
| "ascii_only v = True"

text \<open>A bound on the fuel that parsing the JSON text of a value uses.\<close>

fun weight :: "jsval \<Rightarrow> nat" where
  "weight (JArr xs) = 1 + sum_list (map (\<lambda>x. Suc (weight x)) xs)"
| "weight (JObj kvs) = 1 + sum_list (map (\<lambda>kv. Suc (weight (snd kv))) kvs)"
| "weight v = 1"

text \<open>What may stand behind a value in a JSON text without white space.\<close>

definition follows :: "string \<Rightarrow> bool" where
  "follows rest = (rest = [] \<or> hd rest \<in> set '',]}'')"

text \<open>The first character of a JSON text is no white space and closes nothing.\<close>

definition opener :: "char \<Rightarrow> bool" where
  "opener c = (\<not> is_json_space c \<and> c \<noteq> CHR '']'' \<and> c \<noteq> CHR ''}'')"

text \<open>The text of one member of an object.\<close>

definition member :: "string \<times> jsval \<Rightarrow> string" where
  "member kv = quote (fst kv) @ '':'' @ JSON_stringify (snd kv)"

text \<open>
  The loop of \<open>transactWrite\<close> when the call runs alone, from its head with the counter
  at \<open>attempts\<close>.
\<close>

definition transact_loop :: "call \<Rightarrow> nat \<Rightarrow> client \<Rightarrow> (error + written) \<times> client" where
  "transact_loop params attempts st = complete (transact_attempt params attempts st)"

text \<open>The calls that a call in progress may still send to the store.\<close>

fun leaf_calls :: "running \<Rightarrow> call set" where
  "leaf_calls (TransactWait params attempts r) = {params}"
| "leaf_calls (TransactSleep params attempts) = {params}"
| "leaf_calls (All e members) = (\<Union>m \<in> set members. leaf_calls m)"
| "leaf_calls r = {}"

text \<open>A call in progress that has met no failure: it is fulfilled or about to be.\<close>

fun calm :: "running \<Rightarrow> bool" where
  "calm (TransactWait params attempts r) = (r = Succeeded)"
| "calm (BatchWait r) = (r = Succeeded)"
| "calm (Settled r) = (r = Inr ResTrue)"
| "calm r = False"

text \<open>
  Every \<open>Promise.all\<close> of a call in progress has recorded the rejection of a member,
  and the error it has recorded is the error of a member that is rejected.
\<close>

fun coherent :: "running \<Rightarrow> bool" where
  "coherent (All e members) =
     ((case e of
         None \<Rightarrow> first_rejected (map outcome members) = None
       | Some x \<Rightarrow> Some (Inl x) \<in> set (map outcome members))
      \<and> (\<forall>m \<in> set members. coherent m))"
| "coherent r = True"

text \<open>What the members of a \<open>Promise.all\<close> have settled to.\<close>

fun member_outcomes :: "running \<Rightarrow> (error + written) option list" where
  "member_outcomes (All e members) = map outcome members"
| "member_outcomes r = []"

text \<open>The answers of the store to its next \<open>n\<close> calls, from the responses it holds.\<close>

fun answers :: "nat \<Rightarrow> response list \<Rightarrow> response list" where
  "answers 0 rs = []"
| "answers (Suc n) [] = Succeeded # answers n []"
| "answers (Suc n) (r # rs) = r # answers n rs"

text \<open>The chunks of a write over the limit, as the calls for them have settled.\<close>

definition transactWrite_parts :: "DynamoDB \<Rightarrow> op list \<Rightarrow> client \<Rightarrow> (error + written) option list" where
  "transactWrite_parts d ops st =
     member_outcomes (fst (run (fst (start_transactWrite d ops st)) (snd (start_transactWrite d ops st))))"

definition putBatch_parts :: "DynamoDB \<Rightarrow> obj list \<Rightarrow> client \<Rightarrow> (error + written) option list" where
  "putBatch_parts d items st =
     member_outcomes (fst (run (fst (start_putBatch d items st)) (snd (start_putBatch d items st))))"

lemmas key_eval =
  key_def placeholder_def is_word_def is_digit_def char_code_def replace_all_def
  starts_with_def to_string_opt_def resolve_keys_def key_obj_def

section \<open>Properties of key resolution\<close>

lemma placeholder_shape:
  assumes "placeholder s = Some (f, rest)"
  shows "s = CHR ''{'' # f @ CHR ''}'' # rest" and "f \<noteq> []" and "\<forall>c \<in> set f. is_word c"
proof -
  from assms obtain cs where s: "s = CHR ''{'' # cs"
    by (cases s) (auto simp: placeholder_def split: if_splits)
  from assms s have d: "dropWhile is_word cs = CHR ''}'' # rest" and f: "f = takeWhile is_word cs" and ne: "takeWhile is_word cs \<noteq> []"
    by (auto simp: placeholder_def split: if_splits list.splits)
  have "cs = takeWhile is_word cs @ dropWhile is_word cs" by simp
  with d f s show "s = CHR ''{'' # f @ CHR ''}'' # rest" by simp
  from f ne show "f \<noteq> []" by simp
  from f show "\<forall>c \<in> set f. is_word c" by (auto dest: set_takeWhileD)
qed

lemma brace_not_word: "\<not> is_word CHR ''{''" "\<not> is_word CHR ''}''"
  by (simp_all add: is_word_def is_digit_def char_code_def)

lemma expand_plain: "CHR ''$'' \<notin> set v \<Longrightarrow> expand m l r v = v"
  by (induction m l r v rule: expand.induct) auto

lemma replace_from_skip:
  "CHR ''{'' \<notin> set u \<Longrightarrow> replace_from (CHR ''{'' # m) v seen (u @ s) = u @ replace_from (CHR ''{'' # m) v (seen @ u) s"
  by (induction u arbitrary: seen) (auto simp: starts_with_def)

lemma starts_with_token:
  assumes "\<forall>c \<in> set f. is_word c" "\<forall>c \<in> set g. is_word c"
  shows "starts_with (CHR ''{'' # f @ ''}'') (CHR ''{'' # g @ CHR ''}'' # rest) \<longleftrightarrow> f = g"
proof -
  have "take (length (f @ ''}'')) (g @ CHR ''}'' # rest) = f @ ''}'' \<longleftrightarrow> f = g" using assms
  proof (induction f arbitrary: g)
    case Nil
    then show ?case using brace_not_word by (cases g) auto
  next
    case (Cons a f)
    then show ?case using brace_not_word by (cases g) auto
  qed
  then show ?thesis by (simp add: starts_with_def)
qed

lemma replace_from_token:
  assumes f: "\<forall>c \<in> set f. is_word c" and g: "\<forall>c \<in> set g. is_word c"
  shows "replace_from (CHR ''{'' # f @ ''}'') v seen (CHR ''{'' # g @ CHR ''}'' # rest) =
     (if f = g then expand (CHR ''{'' # f @ ''}'') seen rest v
                      @ replace_from (CHR ''{'' # f @ ''}'') v (seen @ CHR ''{'' # f @ ''}'') rest
      else CHR ''{'' # g @ CHR ''}'' # replace_from (CHR ''{'' # f @ ''}'') v (seen @ CHR ''{'' # g @ ''}'') rest)"
proof (cases "f = g")
  case True
  then show ?thesis using starts_with_token [OF f g, of rest] by simp
next
  case False
  have ng: "CHR ''{'' \<notin> set (g @ ''}'')" using g brace_not_word by auto
  have "replace_from (CHR ''{'' # f @ ''}'') v (seen @ ''{'') ((g @ ''}'') @ rest)
      = (g @ ''}'') @ replace_from (CHR ''{'' # f @ ''}'') v ((seen @ ''{'') @ (g @ ''}'')) rest"
    by (rule replace_from_skip [OF ng])
  with False show ?thesis using starts_with_token [OF f g, of rest] by simp
qed

lemma matchAll_placeholder:
  "placeholder (c # cs) = Some (f, rest) \<Longrightarrow> matchAll (c # cs) = f # matchAll rest"
  "placeholder (c # cs) = None \<Longrightarrow> matchAll (c # cs) = matchAll cs"
  by simp_all

lemma matchAll_words: "f \<in> set (matchAll t) \<Longrightarrow> f \<noteq> [] \<and> (\<forall>c \<in> set f. is_word c)"
proof (induction t rule: matchAll.induct)
  case 1
  then show ?case by simp
next
  case (2 c cs)
  show ?case
  proof (cases "placeholder (c # cs)")
    case None
    with 2 show ?thesis by simp
  next
    case (Some p)
    obtain g rest where p: "p = (g, rest)" by (cases p)
    with Some 2 placeholder_shape(2,3) [of "c # cs" g rest] show ?thesis by auto
  qed
qed

lemma replace_partial_subst:
  assumes "closed_braces t"
    and "\<forall>c \<in> set f. is_word c"
    and "\<forall>g \<in> set (matchAll t). CHR ''{'' \<notin> set (to_string_opt (map_of data g))"
    and "CHR ''$'' \<notin> set (to_string_opt (map_of data f))"
  shows "replace_from (CHR ''{'' # f @ ''}'') (to_string_opt (map_of data f)) seen (partial_subst S data t)
           = partial_subst (insert f S) data t"
  using assms
proof (induction S data t arbitrary: seen rule: partial_subst.induct)
  case (1 S data)
  then show ?case by simp
next
  case (2 S data c cs)
  show ?case
  proof (cases "placeholder (c # cs)")
    case None
    with 2 have c: "c \<noteq> CHR ''{''" and cb: "closed_braces cs" by auto
    have m: "\<forall>g \<in> set (matchAll cs). CHR ''{'' \<notin> set (to_string_opt (map_of data g))"
      using 2(5) None by simp
    have "replace_from (CHR ''{'' # f @ ''}'') (to_string_opt (map_of data f)) (seen @ [c]) (partial_subst S data cs)
           = partial_subst (insert f S) data cs"
      using 2(1) [OF None cb 2(4) m 2(6)] .
    with None c show ?thesis by (simp add: starts_with_def)
  next
    case (Some p)
    obtain g rest where p: "p = (g, rest)" by (cases p)
    have ph: "placeholder (c # cs) = Some (g, rest)" using Some p by simp
    have gw: "\<forall>c \<in> set g. is_word c" using placeholder_shape(3) [OF ph] .
    from 2(3) ph have cb: "closed_braces rest" by simp
    have m: "\<forall>g \<in> set (matchAll rest). CHR ''{'' \<notin> set (to_string_opt (map_of data g))"
      using 2(5) ph by simp
    have gv: "CHR ''{'' \<notin> set (to_string_opt (map_of data g))"
      using 2(5) ph by simp
    have IH: "\<And>seen. replace_from (CHR ''{'' # f @ ''}'') (to_string_opt (map_of data f)) seen (partial_subst S data rest)
           = partial_subst (insert f S) data rest"
      using 2(2) [OF Some p [symmetric] cb 2(4) m 2(6)] by simp
    show ?thesis
    proof (cases "g \<in> S")
      case True
      then show ?thesis using ph IH replace_from_skip [OF gv] by simp
    next
      case False
      then show ?thesis
        using ph IH replace_from_token [OF 2(4) gw] expand_plain [OF 2(6)] by auto
    qed
  qed
qed

lemma partial_subst_empty: "partial_subst {} data t = t"
proof (induction "{} :: string set" data t rule: partial_subst.induct)
  case (1 data)
  then show ?case by simp
next
  case (2 data c cs)
  show ?case
  proof (cases "placeholder (c # cs)")
    case None
    with 2 show ?thesis by simp
  next
    case (Some p)
    obtain g rest where p: "p = (g, rest)" by (cases p)
    with Some 2 placeholder_shape(1) [of "c # cs" g rest] show ?thesis by simp
  qed
qed

lemma partial_subst_all:
  "set (matchAll t) \<subseteq> S \<Longrightarrow> partial_subst S data t = substitute t data"
proof (induction S data t rule: partial_subst.induct)
  case (1 S data)
  then show ?case by simp
next
  case (2 S data c cs)
  show ?case
  proof (cases "placeholder (c # cs)")
    case None
    with 2 show ?thesis by simp
  next
    case (Some p)
    obtain g rest where p: "p = (g, rest)" by (cases p)
    with Some 2 show ?thesis by simp
  qed
qed

lemma key_loop_partial_subst:
  assumes "closed_braces t"
    and "set fs \<subseteq> set (matchAll t)"
    and "\<forall>g \<in> set (matchAll t). \<not> list_all is_digit g
           \<and> CHR ''{'' \<notin> set (to_string_opt (map_of data g))
           \<and> CHR ''$'' \<notin> set (to_string_opt (map_of data g))"
  shows "key_loop fs data (partial_subst S data t) = Inr (partial_subst (S \<union> set fs) data t)"
  using assms(2)
proof (induction fs arbitrary: S)
  case Nil
  then show ?case by simp
next
  case (Cons f fs)
  then have fin: "f \<in> set (matchAll t)" and sub: "set fs \<subseteq> set (matchAll t)" by auto
  have fw: "\<forall>c \<in> set f. is_word c" using matchAll_words [OF fin] by simp
  have r: "replace_all (partial_subst S data t) (CHR ''{'' # f @ ''}'') (to_string_opt (map_of data f))
      = partial_subst (insert f S) data t"
    unfolding replace_all_def
    using replace_partial_subst [OF assms(1) fw] assms(3) fin by blast
  have "key_loop fs data (partial_subst (insert f S) data t) = Inr (partial_subst (insert f S \<union> set fs) data t)"
    using Cons.IH [OF sub] .
  with r assms(3) fin show ?case by simp
qed

text \<open>
  Claim C3, as the code has it. \<open>#key\<close> has no check for an absent field and raises no
  configuration error: the absent field is rendered as the text \<open>undefined\<close>. When
  every opening brace of the template opens a placeholder, no placeholder name consists
  of digits only, and the text forms of the referenced values contain neither an opening
  brace nor a dollar sign, the result is the template with every placeholder replaced
  by the text form of its field's value.
\<close>

theorem key_substitutes:
  assumes "closed_braces t"
    and "\<forall>g \<in> set (matchAll t). \<not> list_all is_digit g
           \<and> CHR ''{'' \<notin> set (to_string_opt (map_of data g))
           \<and> CHR ''$'' \<notin> set (to_string_opt (map_of data g))"
  shows "key t data = Inr (substitute t data)"
proof -
  have "key_loop (matchAll t) data (partial_subst {} data t)
     = Inr (partial_subst ({} \<union> set (matchAll t)) data t)"
    by (rule key_loop_partial_subst [OF assms(1) _ assms(2)]) simp
  then show ?thesis
    by (simp add: key_def partial_subst_empty partial_subst_all)
qed

theorem key_substitutes_witness:
  "key ''user#{id}#{org}'' [(''id'', JStr ''42'')] = Inr ''user#42#undefined''"
proof -
  have h1: "closed_braces ''user#{id}#{org}''"
    by (simp add: key_eval)
  have h2: "\<forall>g \<in> set (matchAll ''user#{id}#{org}''). \<not> list_all is_digit g
           \<and> CHR ''{'' \<notin> set (to_string_opt (map_of [(''id'', JStr ''42'')] g))
           \<and> CHR ''$'' \<notin> set (to_string_opt (map_of [(''id'', JStr ''42'')] g))"
    by (simp add: key_eval)
  have "substitute ''user#{id}#{org}'' [(''id'', JStr ''42'')] = ''user#42#undefined''"
    by (simp add: key_eval)
  with key_substitutes [OF h1 h2] show ?thesis by simp
qed

text \<open>
  Claim C3 as stated fails. The template \<open>user#{id}\<close> on an entity without \<open>id\<close>
  resolves to a key string. With every field present, the result is not always the
  template with the values in place of the placeholders: a dollar pattern in a value is
  expanded, a value is searched again for the placeholders that follow, a brace of the
  template can close over a value, and a placeholder made of digits makes the \<open>RegExp\<close>
  constructor throw.
\<close>

theorem key_absent_field_counterexample:
  "map_of ([] :: obj) ''id'' = None \<and> matchAll ''user#{id}'' = [''id'']
     \<and> key ''user#{id}'' [] = Inr ''user#undefined''
     \<and> key ''{a}'' [(''a'', JStr ''x$&y'')] = Inr ''x{a}y''
     \<and> key ''{a}-{b}'' [(''a'', JStr ''{b}''), (''b'', JStr ''x'')] = Inr ''x-x''
     \<and> key ''{{a}b}{xb}'' [(''a'', JStr ''x''), (''xb'', JStr ''V'')] = Inr ''VV''
     \<and> raises_SyntaxError (key ''{1}'' [(''1'', JStr ''x'')])"
  by (simp add: key_eval raises_SyntaxError_def)

section \<open>Properties of the store wrapper\<close>

lemma send_script:
  "responses st = r # rs \<Longrightarrow> send c st = (r, st\<lparr>responses := rs, calls := calls st @ [c]\<rparr>)"
  by (simp add: send_def)

lemma run_settled: "run (Settled x) st = (Settled x, st)"
  by (subst run.simps) simp

lemma run_wait: "run (TransactWait c a r) st = run (transact_answer c a r) st"
  by (subst run.simps) simp

lemma transact_loop_unfold:
  "transact_loop params attempts st =
     (if attempts + 1 > 20 then
        (Inl (new_DatabaseError ''Max attempts retrying TransactionConflict''), st)
      else
        (case send params st of
           (Succeeded, st') \<Rightarrow> (Inr ResTrue, st')
         | (Failed message, st') \<Rightarrow>
             if contains_text ''TransactionConflict'' message then transact_loop params (attempts + 1) st'
             else (Inl (new_DatabaseError message), st')))"
proof (cases "attempts + 1 > 20")
  case True
  then show ?thesis
    by (simp add: transact_loop_def complete_def transact_attempt_def run_settled settled_def)
next
  case False
  obtain r st' where s: "send params st = (r, st')" by (cases "send params st")
  have a: "transact_loop params attempts st
      = (case run (transact_answer params (attempts + 1) r) st' of (r', st'') \<Rightarrow> (settled r', st''))"
    using False s by (simp add: transact_loop_def complete_def transact_attempt_def run_wait)
  show ?thesis
  proof (cases r)
    case Succeeded
    with a False s show ?thesis
      by (simp add: transact_answer_def run_settled settled_def)
  next
    case (Failed message)
    show ?thesis
    proof (cases "contains_text ''TransactionConflict'' message")
      case True
      have "run (TransactSleep params (attempts + 1)) st'
          = run (fst (transact_attempt params (attempts + 1) st')) (snd (transact_attempt params (attempts + 1) st'))"
        by (subst run.simps) (simp add: case_prod_beta)
      with a False s Failed True show ?thesis
        by (simp add: transact_answer_def transact_loop_def complete_def)
    next
      case no: False
      with a False s Failed show ?thesis
        by (simp add: transact_answer_def run_settled settled_def)
    qed
  qed
qed

lemma transactWrite_direct:
  "length ops \<le> transactLimit d \<Longrightarrow>
     transactWrite d ops st = transact_loop (TransactWriteCall (map (transact_item (table d)) ops)) 0 st"
  by (simp add: transactWrite_def transact_loop_def start_transactWrite.simps)


lemma transact_loop_conflicts:
  assumes "\<forall>m \<in> set ms. contains_text ''TransactionConflict'' m"
    and "responses st = map Failed ms @ rest"
    and "attempts + length ms \<le> 20"
  shows "transact_loop c attempts st
     = transact_loop c (attempts + length ms)
         (st\<lparr>responses := rest, calls := calls st @ replicate (length ms) c\<rparr>)"
  using assms
proof (induction ms arbitrary: attempts st)
  case Nil
  then show ?case by (cases st) simp
next
  case (Cons m ms)
  let ?st1 = "st\<lparr>responses := map Failed ms @ rest, calls := calls st @ [c]\<rparr>"
  from Cons.prems have s: "send c st = (Failed m, ?st1)"
    by (simp add: send_script)
  from Cons.prems have m: "contains_text ''TransactionConflict'' m" and a: "attempts + 1 \<le> 20"
    by auto
  have "transact_loop c attempts st = transact_loop c (attempts + 1) ?st1"
    using s m a by (subst transact_loop_unfold) simp
  also have "\<dots> = transact_loop c (attempts + 1 + length ms)
      (?st1\<lparr>responses := rest, calls := calls ?st1 @ replicate (length ms) c\<rparr>)"
    using Cons.prems by (intro Cons.IH) auto
  finally show ?case by (simp add: replicate_app_Cons_same)
qed


text \<open>
  Claim C5. For a batch within the limit, let the store report a transactional conflict
  on the first \<open>N - 1\<close> attempts (\<open>N - 1\<close> is \<open>length ms\<close>). If attempt \<open>N\<close> succeeds,
  \<open>transactWrite\<close> succeeds after \<open>N\<close> calls when \<open>N \<le> 20\<close>, and raises the
  \<open>DatabaseError\<close> of the attempt ceiling after 20 calls when \<open>N > 20\<close>. If attempt \<open>N\<close>
  fails with anything that is not a conflict, that failure is raised at once as a
  \<open>DatabaseError\<close>: the store has received \<open>N\<close> calls and its later responses are
  untouched.
\<close>

theorem transactWrite_conflict_retry:
  assumes fits: "length ops \<le> transactLimit d"
    and conflicts: "\<forall>m \<in> set ms. contains_text ''TransactionConflict'' m"
  shows "(responses st = map Failed ms @ Succeeded # rest \<and> length ms + 1 \<le> 20 \<longrightarrow>
            transactWrite d ops st
              = (Inr ResTrue,
                 st\<lparr>responses := rest,
                    calls := calls st @ replicate (length ms + 1)
                               (TransactWriteCall (map (transact_item (table d)) ops))\<rparr>))
       \<and> (responses st = map Failed ms @ Succeeded # rest \<and> length ms + 1 > 20 \<longrightarrow>
            fst (transactWrite d ops st)
              = Inl (new_DatabaseError ''Max attempts retrying TransactionConflict'')
            \<and> calls (snd (transactWrite d ops st))
              = calls st @ replicate 20 (TransactWriteCall (map (transact_item (table d)) ops)))
       \<and> (responses st = map Failed ms @ Failed other # rest
            \<and> \<not> contains_text ''TransactionConflict'' other \<and> length ms + 1 \<le> 20 \<longrightarrow>
            transactWrite d ops st
              = (Inl (new_DatabaseError other),
                 st\<lparr>responses := rest,
                    calls := calls st @ replicate (length ms + 1)
                               (TransactWriteCall (map (transact_item (table d)) ops))\<rparr>))"
proof -
  let ?c = "TransactWriteCall (map (transact_item (table d)) ops)"
  have ok: "transactWrite d ops st
      = (Inr ResTrue, st\<lparr>responses := rest, calls := calls st @ replicate (length ms + 1) ?c\<rparr>)"
    if r: "responses st = map Failed ms @ Succeeded # rest" and n: "length ms + 1 \<le> 20"
  proof -
    let ?st1 = "st\<lparr>responses := Succeeded # rest, calls := calls st @ replicate (length ms) ?c\<rparr>"
    have "transact_loop ?c 0 st = transact_loop ?c (0 + length ms) ?st1"
      using conflicts r n by (intro transact_loop_conflicts) auto
    also have "\<dots> = (Inr ResTrue, ?st1\<lparr>responses := rest, calls := calls ?st1 @ [?c]\<rparr>)"
      using n by (subst transact_loop_unfold) (simp add: send_script)
    finally show ?thesis
      by (simp add: transactWrite_direct [OF fits] replicate_append_same)
  qed
  have max: "fst (transactWrite d ops st)
              = Inl (new_DatabaseError ''Max attempts retrying TransactionConflict'')
            \<and> calls (snd (transactWrite d ops st)) = calls st @ replicate 20 ?c"
    if r: "responses st = map Failed ms @ Succeeded # rest" and n: "length ms + 1 > 20"
  proof -
    let ?ms = "take 20 ms"
    let ?rest = "map Failed (drop 20 ms) @ Succeeded # rest"
    let ?st1 = "st\<lparr>responses := ?rest, calls := calls st @ replicate 20 ?c\<rparr>"
    have l: "length ?ms = 20" using n by simp
    have c: "\<forall>m \<in> set ?ms. contains_text ''TransactionConflict'' m"
      using conflicts by (auto dest: in_set_takeD)
    have "map Failed ms = map Failed ?ms @ map Failed (drop 20 ms)"
      by (simp flip: map_append)
    with r have r': "responses st = map Failed ?ms @ ?rest" by simp
    have "transact_loop ?c 0 st = transact_loop ?c (0 + length ?ms)
        (st\<lparr>responses := ?rest, calls := calls st @ replicate (length ?ms) ?c\<rparr>)"
      using c r' l by (intro transact_loop_conflicts) auto
    then have "transact_loop ?c 0 st = transact_loop ?c 20 ?st1"
      by (simp only: l add_0)
    also have "\<dots> = (Inl (new_DatabaseError ''Max attempts retrying TransactionConflict''), ?st1)"
      by (subst transact_loop_unfold) simp
    finally show ?thesis
      by (simp add: transactWrite_direct [OF fits])
  qed
  have other: "transactWrite d ops st
      = (Inl (new_DatabaseError other),
         st\<lparr>responses := rest, calls := calls st @ replicate (length ms + 1) ?c\<rparr>)"
    if r: "responses st = map Failed ms @ Failed other # rest"
      and o: "\<not> contains_text ''TransactionConflict'' other" and n: "length ms + 1 \<le> 20"
  proof -
    let ?st1 = "st\<lparr>responses := Failed other # rest, calls := calls st @ replicate (length ms) ?c\<rparr>"
    have "transact_loop ?c 0 st = transact_loop ?c (0 + length ms) ?st1"
      using conflicts r n by (intro transact_loop_conflicts) auto
    also have "\<dots> = (Inl (new_DatabaseError other), ?st1\<lparr>responses := rest, calls := calls ?st1 @ [?c]\<rparr>)"
      using n o by (subst transact_loop_unfold) (simp add: send_script)
    finally show ?thesis
      by (simp add: transactWrite_direct [OF fits] replicate_append_same)
  qed
  from ok max other show ?thesis by blast
qed

theorem transactWrite_conflict_retry_witness:
  "transactWrite \<lparr>table = ''t'', transactLimit = 25\<rparr> [Delete [] None]
      \<lparr>responses = [Failed ''TransactionConflict'', Succeeded], calls = [], schedule = []\<rparr>
     = (Inr ResTrue, \<lparr>responses = [],
          calls = [TransactWriteCall [Delete [] (Some ''t'')], TransactWriteCall [Delete [] (Some ''t'')]],
          schedule = []\<rparr>)
   \<and> fst (transactWrite \<lparr>table = ''t'', transactLimit = 25\<rparr> [Delete [] None]
      \<lparr>responses = map Failed (replicate 20 ''TransactionConflict'') @ [Succeeded], calls = [], schedule = []\<rparr>)
     = Inl (DatabaseError ''DatabaseError: Max attempts retrying TransactionConflict'')
   \<and> transactWrite \<lparr>table = ''t'', transactLimit = 25\<rparr> [Delete [] None]
      \<lparr>responses = [Failed ''TransactionConflict'', Failed ''ValidationException'', Succeeded], calls = [], schedule = []\<rparr>
     = (Inl (DatabaseError ''DatabaseError: ValidationException''), \<lparr>responses = [Succeeded],
          calls = [TransactWriteCall [Delete [] (Some ''t'')], TransactWriteCall [Delete [] (Some ''t'')]],
          schedule = []\<rparr>)"
proof -
  let ?d = "\<lparr>table = ''t'', transactLimit = 25\<rparr>"
  let ?ops = "[Delete [] None]"
  have fits: "length ?ops \<le> transactLimit ?d" by simp
  have c1: "\<forall>m \<in> set [''TransactionConflict'']. contains_text ''TransactionConflict'' m"
    by (simp add: starts_with_def)
  have c20: "\<forall>m \<in> set (replicate 20 ''TransactionConflict''). contains_text ''TransactionConflict'' m"
    by (simp add: starts_with_def)
  have o: "\<not> contains_text ''TransactionConflict'' ''ValidationException''"
    by (simp add: starts_with_def)
  have a: "transactWrite ?d ?ops \<lparr>responses = [Failed ''TransactionConflict'', Succeeded], calls = [], schedule = []\<rparr>
     = (Inr ResTrue, \<lparr>responses = [],
          calls = [TransactWriteCall [Delete [] (Some ''t'')], TransactWriteCall [Delete [] (Some ''t'')]],
          schedule = []\<rparr>)"
    using transactWrite_conflict_retry [OF fits c1,
        where st = "\<lparr>responses = [Failed ''TransactionConflict'', Succeeded], calls = [], schedule = []\<rparr>"
          and rest = "[]"]
    by (simp add: with_table_def)
  have b: "fst (transactWrite ?d ?ops
      \<lparr>responses = map Failed (replicate 20 ''TransactionConflict'') @ [Succeeded], calls = [], schedule = []\<rparr>)
     = Inl (DatabaseError ''DatabaseError: Max attempts retrying TransactionConflict'')"
    using transactWrite_conflict_retry [OF fits c20,
        where st = "\<lparr>responses = map Failed (replicate 20 ''TransactionConflict'') @ [Succeeded], calls = [], schedule = []\<rparr>"
          and rest = "[]"]
    by (simp add: new_DatabaseError_def)
  have c: "transactWrite ?d ?ops
      \<lparr>responses = [Failed ''TransactionConflict'', Failed ''ValidationException'', Succeeded], calls = [], schedule = []\<rparr>
     = (Inl (DatabaseError ''DatabaseError: ValidationException''), \<lparr>responses = [Succeeded],
          calls = [TransactWriteCall [Delete [] (Some ''t'')], TransactWriteCall [Delete [] (Some ''t'')]],
          schedule = []\<rparr>)"
    using transactWrite_conflict_retry [OF fits c1,
        where st = "\<lparr>responses = [Failed ''TransactionConflict'', Failed ''ValidationException'', Succeeded], calls = [], schedule = []\<rparr>"
          and other = "''ValidationException''" and rest = "[Succeeded]"] o
    by (simp add: with_table_def new_DatabaseError_def)
  from a b c show ?thesis by blast
qed

subsection \<open>Runs of calls in progress\<close>

lemma run_done: "pending r = 0 \<Longrightarrow> run r st = (r, st)"
  by (subst run.simps) simp

lemma run_step:
  assumes "pending r \<noteq> 0"
  shows "\<exists>j s. j < pending r
           \<and> (s = st \<or> (\<exists>rest. s = st\<lparr>schedule := rest\<rparr>))
           \<and> run r st = run (fst (resume j r s)) (snd (resume j r s))"
proof (cases "pending r = 1")
  case True
  then have "run r st = run (fst (resume 0 r st)) (snd (resume 0 r st))"
    by (subst run.simps) (simp add: case_prod_beta)
  with True show ?thesis by (intro exI [of _ 0] exI [of _ st]) simp
next
  case False
  show ?thesis
  proof (cases "schedule st")
    case Nil
    with False assms have "run r st = run (fst (resume 0 r st)) (snd (resume 0 r st))"
      by (subst run.simps) (simp add: case_prod_beta)
    with assms show ?thesis by (intro exI [of _ 0] exI [of _ st]) simp
  next
    case (Cons i rest)
    let ?j = "i mod pending r" and ?s = "st\<lparr>schedule := rest\<rparr>"
    from Cons False assms have "run r st = run (fst (resume ?j r ?s)) (snd (resume ?j r ?s))"
      by (subst run.simps) (simp add: case_prod_beta)
    with assms show ?thesis by (intro exI [of _ ?j] exI [of _ ?s]) auto
  qed
qed

lemma run_invariant:
  assumes sched: "\<And>r st rest. I r st \<Longrightarrow> I r (st\<lparr>schedule := rest\<rparr>)"
    and step: "\<And>j r st. I r st \<Longrightarrow> j < pending r \<Longrightarrow> I (fst (resume j r st)) (snd (resume j r st))"
    and init: "I r st"
  shows "I (fst (run r st)) (snd (run r st)) \<and> pending (fst (run r st)) = 0"
  using init
proof (induction "effort r" arbitrary: r st rule: less_induct)
  case less
  show ?case
  proof (cases "pending r = 0")
    case True
    with less.prems show ?thesis by (simp add: run_done)
  next
    case False
    from run_step [OF False, of st] obtain j s where j: "j < pending r"
      and s: "s = st \<or> (\<exists>rest. s = st\<lparr>schedule := rest\<rparr>)"
      and eq: "run r st = run (fst (resume j r s)) (snd (resume j r s))"
      by blast
    from s less.prems have "I r s" by (auto intro: sched)
    then have "I (fst (resume j r s)) (snd (resume j r s))" using j by (rule step)
    moreover have "effort (fst (resume j r s)) < effort r" using j by (rule resume_effort(1))
    ultimately show ?thesis using less.hyps eq by simp
  qed
qed


lemma settled_or_rejected:
  "\<forall>r \<in> set rs. r \<noteq> None \<Longrightarrow> first_rejected rs = None \<Longrightarrow> fulfilled rs \<noteq> None"
proof (induction rs)
  case Nil
  then show ?case by simp
next
  case (Cons r rs)
  then obtain x where r: "r = Some x" by auto
  with Cons show ?case by (cases x) auto
qed

lemma pending_outcome: "pending r = 0 \<Longrightarrow> coherent r \<Longrightarrow> outcome r \<noteq> None"
proof (induction r)
  case (All e members)
  show ?case
  proof (cases e)
    case (Some x)
    then show ?thesis by simp
  next
    case None
    have "\<forall>r \<in> set (map outcome members). r \<noteq> None"
      using All by auto
    moreover have "first_rejected (map outcome members) = None"
      using All.prems None by simp
    ultimately have "fulfilled (map outcome members) \<noteq> None"
      by (rule settled_or_rejected)
    with None show ?thesis by simp
  qed
qed simp_all

lemma first_rejected_member: "first_rejected rs = Some x \<Longrightarrow> Some (Inl x) \<in> set rs"
  by (induction rs rule: first_rejected.induct) auto

lemma fulfilled_not_rejected: "fulfilled rs = Some vs \<Longrightarrow> first_rejected rs = None"
  by (induction rs arbitrary: vs rule: fulfilled.induct) auto

lemma fulfilled_settled: "fulfilled rs = Some vs \<Longrightarrow> \<forall>r \<in> set rs. r \<noteq> None"
  by (induction rs arbitrary: vs rule: fulfilled.induct) auto

lemma kept_same:
  "list_all2 (\<lambda>a b. a \<noteq> None \<longrightarrow> b = a) rs rs' \<Longrightarrow> \<forall>r \<in> set rs. r \<noteq> None \<Longrightarrow> rs' = rs"
  by (induction rs rs' rule: list_all2_induct) auto

lemma kept_member:
  "list_all2 (\<lambda>a b. a \<noteq> None \<longrightarrow> b = a) rs rs' \<Longrightarrow> Some y \<in> set rs \<Longrightarrow> Some y \<in> set rs'"
  by (induction rs rs' rule: list_all2_induct) auto

lemma resume_outcome:
  "outcome r \<noteq> None \<Longrightarrow> outcome (fst (resume i r st)) = outcome r"
  "list_all2 (\<lambda>a b. a \<noteq> None \<longrightarrow> b = a) (map outcome ms) (map outcome (fst (resume_member i ms st)))"
proof (induction i r st and i ms st rule: resume_resume_member.induct)
  case (5 i e members st)
  show ?case
  proof (cases e)
    case (Some x)
    then show ?thesis by (simp add: case_prod_beta)
  next
    case None
    with 5(2) obtain vs where f: "fulfilled (map outcome members) = Some vs" by auto
    from kept_same [OF 5(1) fulfilled_settled [OF f]]
    have "map outcome (fst (resume_member i members st)) = map outcome members" .
    with None f show ?thesis
      by (simp add: case_prod_beta fulfilled_not_rejected)
  qed
next
  case (7 i m members st)
  have refl: "list_all2 (\<lambda>a b. a \<noteq> None \<longrightarrow> b = a) rs rs" for rs :: "(error + written) option list"
    by (simp add: list_all2_same)
  show ?case
  proof (cases "i < pending m")
    case True
    with 7(1) refl show ?thesis by (simp add: case_prod_beta)
  next
    case False
    with 7(2) show ?thesis by (simp add: case_prod_beta)
  qed
qed simp_all

lemma resume_coherent:
  "coherent r \<Longrightarrow> coherent (fst (resume i r st))"
  "\<forall>m \<in> set ms. coherent m \<Longrightarrow> \<forall>m \<in> set (fst (resume_member i ms st)). coherent m"
proof (induction i r st and i ms st rule: resume_resume_member.induct)
  case (1 i params attempts r st)
  then show ?case by (simp add: transact_answer_def split: response.splits)
next
  case (2 i params attempts st)
  then show ?case by (simp add: transact_attempt_def split: prod.splits)
next
  case (3 i r st)
  then show ?case by (simp add: batch_answer_def split: response.splits)
next
  case (5 i e members st)
  let ?ms = "fst (resume_member i members st)"
  from 5 have ms: "\<forall>m \<in> set ?ms. coherent m" by simp
  show ?case
  proof (cases e)
    case None
    with ms show ?thesis
      by (auto simp: case_prod_beta split: option.splits dest: first_rejected_member)
  next
    case (Some x)
    with 5(2) have "Some (Inl x) \<in> set (map outcome members)" by simp
    from kept_member [OF resume_outcome(2) this]
    have "Some (Inl x) \<in> set (map outcome ?ms)" .
    with Some ms show ?thesis by (simp add: case_prod_beta)
  qed
next
  case (7 i m members st)
  then show ?case by (simp add: case_prod_beta)
qed simp_all

lemma run_settles:
  assumes "coherent r"
  shows "outcome (fst (run r st)) \<noteq> None"
proof -
  have "coherent (fst (run r st)) \<and> pending (fst (run r st)) = 0"
    by (rule run_invariant [where I = "\<lambda>r st. coherent r"]) (simp_all add: assms resume_coherent)
  then show ?thesis by (simp add: pending_outcome)
qed

subsection \<open>The calls a run sends\<close>

lemma send_calls: "calls (snd (send c st)) = calls st @ [c]"
  by (simp add: send_def split: list.splits)

lemma resume_calls:
  "(\<exists>new. calls (snd (resume i r st)) = calls st @ new \<and> set new \<subseteq> leaf_calls r)
     \<and> leaf_calls (fst (resume i r st)) \<subseteq> leaf_calls r"
  "(\<exists>new. calls (snd (resume_member i ms st)) = calls st @ new \<and> set new \<subseteq> (\<Union>m \<in> set ms. leaf_calls m))
     \<and> (\<Union>m \<in> set (fst (resume_member i ms st)). leaf_calls m) \<subseteq> (\<Union>m \<in> set ms. leaf_calls m)"
proof (induction i r st and i ms st rule: resume_resume_member.induct)
  case (1 i params attempts r st)
  then show ?case by (simp add: transact_answer_def split: response.splits)
next
  case (2 i params attempts st)
  show ?case
  proof (cases "attempts + 1 > 20")
    case True
    then show ?thesis by (simp add: transact_attempt_def)
  next
    case False
    have "calls (snd (send params st)) = calls st @ [params]" by (rule send_calls)
    with False show ?thesis
      by (auto simp: transact_attempt_def case_prod_beta)
  qed
next
  case (3 i r st)
  then show ?case by (simp add: batch_answer_def split: response.splits)
next
  case (5 i e members st)
  then show ?case by (simp add: case_prod_beta)
next
  case (7 i m members st)
  show ?case
  proof (cases "i < pending m")
    case True
    with 7(1) show ?thesis by (fastforce simp: case_prod_beta)
  next
    case False
    with 7(2) show ?thesis by (fastforce simp: case_prod_beta)
  qed
qed simp_all

lemma run_calls:
  "\<exists>new. calls (snd (run r st)) = calls st @ new \<and> set new \<subseteq> leaf_calls r"
proof -
  let ?I = "\<lambda>(r' :: running) (st' :: client). (\<exists>new. calls st' = calls st @ new \<and> set new \<subseteq> leaf_calls r) \<and> leaf_calls r' \<subseteq> leaf_calls r"
  have "?I (fst (run r st)) (snd (run r st)) \<and> pending (fst (run r st)) = 0"
  proof (rule run_invariant [where I = ?I])
    fix j r' and st' :: client
    assume i: "?I r' st'" and "j < pending r'"
    then obtain new where new: "calls st' = calls st @ new" "set new \<subseteq> leaf_calls r" by blast
    from resume_calls(1) [of j r' st']
    obtain more where more: "calls (snd (resume j r' st')) = calls st' @ more" "set more \<subseteq> leaf_calls r'"
      and sub: "leaf_calls (fst (resume j r' st')) \<subseteq> leaf_calls r'"
      by blast
    have "calls (snd (resume j r' st')) = calls st @ (new @ more)" using new more by simp
    moreover have "set (new @ more) \<subseteq> leaf_calls r" using new more i by auto
    ultimately have "\<exists>new. calls (snd (resume j r' st')) = calls st @ new \<and> set new \<subseteq> leaf_calls r"
      by blast
    with sub i show "?I (fst (resume j r' st')) (snd (resume j r' st'))" by blast
  qed auto
  then show ?thesis by blast
qed


subsection \<open>Starting the calls for the chunks\<close>

lemma start_each_calls:
  assumes "\<And>part st. calls (snd (f part st)) = calls st @ [g part]"
  shows "calls (snd (start_each f parts st)) = calls st @ map g parts
       \<and> length (fst (start_each f parts st)) = length parts"
  by (induction parts arbitrary: st) (simp_all add: case_prod_beta assms)

lemma start_each_leaves:
  assumes "\<And>part st. leaf_calls (fst (f part st)) \<subseteq> G part"
  shows "(\<Union>m \<in> set (fst (start_each f parts st)). leaf_calls m) \<subseteq> (\<Union>part \<in> set parts. G part)"
proof (induction parts arbitrary: st)
  case Nil
  then show ?case by simp
next
  case (Cons part parts)
  from Cons [of "snd (f part st)"] assms [of part st] show ?case
    by (auto simp: case_prod_beta)
qed

lemma start_each_coherent:
  assumes "\<And>part st. part \<in> set parts \<Longrightarrow> coherent (fst (f part st))"
  shows "\<forall>m \<in> set (fst (start_each f parts st)). coherent m"
  using assms by (induction parts arbitrary: st) (simp_all add: case_prod_beta)

lemma start_each_healthy:
  assumes "\<And>part st. responses st = [] \<Longrightarrow> f part st = (h part, st\<lparr>calls := calls st @ [g part]\<rparr>)"
    and "responses st = []"
  shows "start_each f parts st = (map h parts, st\<lparr>calls := calls st @ map g parts\<rparr>)"
  using assms(2)
proof (induction parts arbitrary: st)
  case Nil
  then show ?case by (cases st) simp
next
  case (Cons part parts)
  let ?st1 = "st\<lparr>calls := calls st @ [g part]\<rparr>"
  have "f part st = (h part, ?st1)" using assms(1) Cons.prems by simp
  moreover have "start_each f parts ?st1 = (map h parts, ?st1\<lparr>calls := calls ?st1 @ map g parts\<rparr>)"
    using Cons.prems by (intro Cons.IH) simp
  ultimately show ?case by simp
qed

lemma attempt_first:
  "calls (snd (transact_attempt c 0 st)) = calls st @ [c]"
  "leaf_calls (fst (transact_attempt c 0 st)) \<subseteq> {c}"
  "coherent (fst (transact_attempt c 0 st))"
  by (simp_all add: transact_attempt_def case_prod_beta send_calls)

lemma attempt_healthy:
  "responses st = [] \<Longrightarrow>
     transact_attempt c 0 st = (TransactWait c 1 Succeeded, st\<lparr>calls := calls st @ [c]\<rparr>)"
  by (simp add: transact_attempt_def send_def)

lemma start_transactWrite_chunked:
  assumes "transactLimit d < length ops"
  shows "start_transactWrite d ops st =
     (case start_each (\<lambda>part. transact_attempt (TransactWriteCall (map (transact_item (table d)) part)) 0)
             (chunk ops (transactLimit d)) st of
        (members, st') \<Rightarrow> (promise_all members, st'))"
proof -
  have "start_each (start_transactWrite d) (chunk ops (transactLimit d)) st
      = start_each (\<lambda>part. transact_attempt (TransactWriteCall (map (transact_item (table d)) part)) 0)
          (chunk ops (transactLimit d)) st"
    by (rule start_each_cong) (auto dest: chunk_part_length simp: start_transactWrite.simps)
  with assms show ?thesis by (subst start_transactWrite.simps) simp
qed

lemma batch_first:
  "calls (snd (case send c st of (r, st') \<Rightarrow> (BatchWait r, st'))) = calls st @ [c]"
  "leaf_calls (fst (case send c st of (r, st') \<Rightarrow> (BatchWait r, st'))) \<subseteq> {}"
  "coherent (fst (case send c st of (r, st') \<Rightarrow> (BatchWait r, st')))"
  by (simp_all add: case_prod_beta send_calls)

lemma start_putBatch_chunked:
  assumes "transactLimit d < length items"
  shows "start_putBatch d items st =
     (case start_each (\<lambda>part st. case send (BatchWriteCall (table d) part) st of (r, st') \<Rightarrow> (BatchWait r, st'))
             (chunk items (transactLimit d)) st of
        (members, st') \<Rightarrow> (promise_all members, st'))"
proof -
  have "start_each (start_putBatch d) (chunk items (transactLimit d)) st
      = start_each (\<lambda>part st. case send (BatchWriteCall (table d) part) st of (r, st') \<Rightarrow> (BatchWait r, st'))
          (chunk items (transactLimit d)) st"
    by (rule start_each_cong) (auto dest: chunk_part_length simp: start_putBatch.simps)
  with assms show ?thesis by (subst start_putBatch.simps) simp
qed

subsection \<open>Runs without failure\<close>

lemma resume_member_calm:
  "list_all calm ms \<Longrightarrow>
     list_all calm (fst (resume_member i ms st)) \<and> snd (resume_member i ms st) = st
     \<and> length (fst (resume_member i ms st)) = length ms"
proof (induction ms arbitrary: i)
  case Nil
  then show ?case by simp
next
  case (Cons m ms)
  then have m: "calm m" and ms: "list_all calm ms" by simp_all
  from m have "calm (fst (resume i m st)) \<and> snd (resume i m st) = st"
    by (cases m) (simp_all add: transact_answer_def batch_answer_def)
  with Cons.IH [OF ms, of "i - pending m"] m ms show ?case
    by (simp add: case_prod_beta)
qed

lemma calm_not_rejected: "list_all calm ms \<Longrightarrow> first_rejected (map outcome ms) = None"
proof (induction ms)
  case Nil
  then show ?case by simp
next
  case (Cons m ms)
  then show ?case by (cases m) simp_all
qed

lemma calm_done:
  "list_all calm ms \<Longrightarrow> sum_list (map pending ms) = 0 \<Longrightarrow>
     ms = replicate (length ms) (Settled (Inr ResTrue))"
proof (induction ms)
  case Nil
  then show ?case by simp
next
  case (Cons m ms)
  then show ?case by (cases m) simp_all
qed

lemma run_calm:
  assumes "list_all calm ms"
  shows "fst (run (All None ms) st) = All None (replicate (length ms) (Settled (Inr ResTrue)))
       \<and> calls (snd (run (All None ms) st)) = calls st
       \<and> responses (snd (run (All None ms) st)) = responses st"
proof -
  let ?I = "\<lambda>(r' :: running) (st' :: client).
      (\<exists>ms'. r' = All None ms' \<and> length ms' = length ms \<and> list_all calm ms')
      \<and> calls st' = calls st \<and> responses st' = responses st"
  have "?I (fst (run (All None ms) st)) (snd (run (All None ms) st))
      \<and> pending (fst (run (All None ms) st)) = 0"
  proof (rule run_invariant [where I = ?I])
    fix j r' and st' :: client
    assume i: "?I r' st'" and "j < pending r'"
    then obtain ms' where r': "r' = All None ms'" and l: "length ms' = length ms" and c: "list_all calm ms'"
      by blast
    from resume_member_calm [OF c, of j st'] calm_not_rejected [of "fst (resume_member j ms' st')"]
    show "?I (fst (resume j r' st')) (snd (resume j r' st'))"
      using i r' l by (simp add: case_prod_beta)
  qed (use assms in auto)
  then obtain ms' where r: "fst (run (All None ms) st) = All None ms'" and l: "length ms' = length ms"
    and c: "list_all calm ms'" and p: "pending (fst (run (All None ms) st)) = 0"
    and st: "calls (snd (run (All None ms) st)) = calls st" "responses (snd (run (All None ms) st)) = responses st"
    by blast
  from p r have "sum_list (map pending ms') = 0" by simp
  from calm_done [OF c this] l r st show ?thesis by simp
qed

lemma fulfilled_replicate:
  "fulfilled (replicate n (Some (Inr v))) = Some (replicate n v)"
  by (induction n) simp_all

lemma settled_all_true:
  "settled (All None (replicate n (Settled (Inr ResTrue)))) = Inr (ResAll (replicate n ResTrue))"
  by (simp add: settled_def fulfilled_replicate)

subsection \<open>The members of a \<open>Promise.all\<close>\<close>

lemma resume_member_length: "length (fst (resume_member i ms st)) = length ms"
  by (induction ms arbitrary: i) (simp_all add: case_prod_beta)

lemma run_members:
  "\<exists>e' ms'. fst (run (All e ms) st) = All e' ms' \<and> length ms' = length ms"
proof -
  let ?I = "\<lambda>(r' :: running) (st' :: client). \<exists>e' ms'. r' = All e' ms' \<and> length ms' = length ms"
  have "?I (fst (run (All e ms) st)) (snd (run (All e ms) st)) \<and> pending (fst (run (All e ms) st)) = 0"
  proof (rule run_invariant [where I = ?I])
    fix j r' and st' :: client
    assume "?I r' st'" and "j < pending r'"
    then show "?I (fst (resume j r' st')) (snd (resume j r' st'))"
      by (auto simp: case_prod_beta resume_member_length)
  qed auto
  then show ?thesis by blast
qed

lemma fulfilled_all:
  "fulfilled rs = Some vs \<Longrightarrow> \<forall>r \<in> set rs. \<exists>w. r = Some (Inr w)"
proof (induction rs arbitrary: vs)
  case Nil
  then show ?case by simp
next
  case (Cons r rs)
  show ?case
  proof (cases r)
    case None
    with Cons.prems show ?thesis by simp
  next
    case (Some x)
    with Cons show ?thesis by (cases x) auto
  qed
qed

lemma settled_members:
  assumes "settled r = Inr v"
  shows "\<forall>x \<in> set (member_outcomes r). \<exists>w. x = Some (Inr w)"
proof (cases r)
  case (All e ms)
  with assms show ?thesis
    by (auto simp: settled_def split: option.splits dest: fulfilled_all)
qed simp_all


lemma run_coherent:
  assumes "coherent r"
  shows "coherent (fst (run r st)) \<and> pending (fst (run r st)) = 0"
  by (rule run_invariant [where I = "\<lambda>r st. coherent r"]) (simp_all add: assms resume_coherent)

lemma rejected_member:
  assumes "coherent (All e ms)" and "pending (All e ms) = 0" and "settled (All e ms) = Inl x"
  shows "Some (Inl x) \<in> set (map outcome ms)"
proof (cases e)
  case (Some y)
  with assms(3) have "x = y" by (simp add: settled_def)
  with Some assms(1) show ?thesis by simp
next
  case None
  from pending_outcome [OF assms(2,1)] None obtain vs where "fulfilled (map outcome ms) = Some vs"
    by auto
  with None assms(3) show ?thesis by (simp add: settled_def)
qed

lemma start_each_batch:
  "start_each (\<lambda>part st. case send (g part) st of (r, st') \<Rightarrow> (BatchWait r, st')) parts st
     = (map BatchWait (answers (length parts) (responses st)),
        st\<lparr>responses := drop (length parts) (responses st), calls := calls st @ map g parts\<rparr>)"
proof (induction parts arbitrary: st)
  case Nil
  then show ?case by (cases st) simp
next
  case (Cons part parts)
  show ?case
  proof (cases "responses st")
    case Nil
    then have s: "send (g part) st = (Succeeded, st\<lparr>calls := calls st @ [g part]\<rparr>)"
      by (simp add: send_def)
    show ?thesis by (simp add: s Cons.IH Nil)
  next
    case (Cons r rs)
    then have s: "send (g part) st = (r, st\<lparr>responses := rs, calls := calls st @ [g part]\<rparr>)"
      by (simp add: send_def)
    show ?thesis by (simp add: s Cons.IH Cons)
  qed
qed

lemma run_batch:
  "fst (run (All e (map BatchWait rs)) st) = All e' ms' \<Longrightarrow> ms' = map batch_answer rs"
  "calls (snd (run (All e (map BatchWait rs)) st)) = calls st"
  "responses (snd (run (All e (map BatchWait rs)) st)) = responses st"
proof -
  let ?done = "\<lambda>m. case m of BatchWait r \<Rightarrow> batch_answer r | _ \<Rightarrow> m"
  let ?leaf = "\<lambda>m. case m of BatchWait r \<Rightarrow> True | Settled x \<Rightarrow> True | _ \<Rightarrow> False"
  let ?I = "\<lambda>(r' :: running) (st' :: client).
      (\<exists>e' ms'. r' = All e' ms' \<and> map ?done ms' = map batch_answer rs \<and> list_all ?leaf ms')
      \<and> calls st' = calls st \<and> responses st' = responses st"
  have step: "map ?done (fst (resume_member j ms st')) = map ?done ms
        \<and> list_all ?leaf (fst (resume_member j ms st')) \<and> snd (resume_member j ms st') = st'"
    if "list_all ?leaf ms" for j ms and st' :: client
    using that
  proof (induction ms arbitrary: j)
    case Nil
    then show ?case by simp
  next
    case (Cons m ms)
    then have m: "?leaf m" and ms: "list_all ?leaf ms" by simp_all
    from m have "?done (fst (resume j m st')) = ?done m \<and> ?leaf (fst (resume j m st')) \<and> snd (resume j m st') = st'"
      by (cases m) (simp_all add: batch_answer_def split: response.splits)
    with Cons.IH [OF ms, of "j - pending m"] m ms show ?case
      by (simp add: case_prod_beta)
  qed
  have inv: "?I (fst (run (All e (map BatchWait rs)) st)) (snd (run (All e (map BatchWait rs)) st))
      \<and> pending (fst (run (All e (map BatchWait rs)) st)) = 0"
  proof (rule run_invariant [where I = ?I])
    fix j r' and st' :: client
    assume i: "?I r' st'" and "j < pending r'"
    then obtain e' ms' where r': "r' = All e' ms'" and d: "map ?done ms' = map batch_answer rs"
      and l: "list_all ?leaf ms'"
      by blast
    from step [OF l, of j st'] show "?I (fst (resume j r' st')) (snd (resume j r' st'))"
      using i r' d by (simp add: case_prod_beta)
  next
    show "?I (All e (map BatchWait rs)) st"
      by (simp add: list_all_iff comp_def)
  qed auto
  from inv show "calls (snd (run (All e (map BatchWait rs)) st)) = calls st"
    and "responses (snd (run (All e (map BatchWait rs)) st)) = responses st"
    by simp_all
  show "ms' = map batch_answer rs" if r: "fst (run (All e (map BatchWait rs)) st) = All e' ms'"
  proof -
    from inv r have d: "map ?done ms' = map batch_answer rs" and l: "list_all ?leaf ms'"
      and p: "sum_list (map pending ms') = 0"
      by auto
    have "map ?done ms' = ms'" using l p
    proof (induction ms')
      case Nil
      then show ?case by simp
    next
      case (Cons m ms)
      then show ?case by (cases m) simp_all
    qed
    with d show ?thesis by simp
  qed
qed

lemma outcome_batch_answer:
  "outcome (batch_answer r)
     = Some (case r of Succeeded \<Rightarrow> Inr ResTrue | Failed message \<Rightarrow> Inl (new_DatabaseError message))"
  by (simp add: batch_answer_def split: response.splits)

subsection \<open>Chunks\<close>

lemma chunk_concat: "0 < n \<Longrightarrow> concat (chunk array n) = array"
proof (induction array n rule: chunk.induct)
  case (1 array n)
  show ?case
  proof (cases "array = []")
    case True
    then show ?thesis by (simp add: chunk.simps)
  next
    case False
    with 1 show ?thesis by (subst chunk.simps) simp
  qed
qed

lemma chunk_part_nonempty: "part \<in> set (chunk array n) \<Longrightarrow> part \<noteq> []"
proof (induction array n rule: chunk.induct)
  case (1 array n)
  show ?case
  proof (cases "array = [] \<or> n < 1")
    case True
    with 1(2) show ?thesis by (simp add: chunk.simps)
  next
    case False
    with 1 show ?thesis by (subst (asm) (2) chunk.simps) auto
  qed
qed

lemma chunk_several: "0 < n \<Longrightarrow> n < length array \<Longrightarrow> 1 < length (chunk array n)"
proof -
  assume n: "0 < n" "n < length array"
  then have a: "array \<noteq> []" and d: "drop n array \<noteq> []" by auto
  have "chunk array n = take n array # take n (drop n array) # chunk (drop n (drop n array)) n"
    using n a d by (subst chunk.simps, simp, subst chunk.simps, simp)
  then show ?thesis by simp
qed

lemma promise_all_leaves: "leaf_calls (promise_all ms) = (\<Union>m \<in> set ms. leaf_calls m)"
  by (simp add: promise_all_def)

lemma start_transactWrite_coherent: "coherent (fst (start_transactWrite d ops st))"
proof (induction d ops st rule: start_transactWrite.induct)
  case (1 d ops st)
  show ?case
  proof (cases "length ops > transactLimit d")
    case True
    have "\<forall>m \<in> set (fst (start_each (start_transactWrite d) (chunk ops (transactLimit d)) st)). coherent m"
      by (rule start_each_coherent) (rule 1 [OF True])
    with True show ?thesis
      by (subst start_transactWrite.simps)
         (auto simp: case_prod_beta promise_all_def split: option.splits dest: first_rejected_member)
  next
    case False
    then show ?thesis
      by (subst start_transactWrite.simps) (simp add: attempt_first)
  qed
qed

lemma start_putBatch_coherent: "coherent (fst (start_putBatch d items st))"
proof (induction d items st rule: start_putBatch.induct)
  case (1 d items st)
  show ?case
  proof (cases "length items > transactLimit d")
    case True
    have "\<forall>m \<in> set (fst (start_each (start_putBatch d) (chunk items (transactLimit d)) st)). coherent m"
      by (rule start_each_coherent) (rule 1 [OF True])
    with True show ?thesis
      by (subst start_putBatch.simps)
         (auto simp: case_prod_beta promise_all_def split: option.splits dest: first_rejected_member)
  next
    case False
    then show ?thesis
      by (subst start_putBatch.simps) (simp add: case_prod_beta)
  qed
qed

lemma transactWrite_chunks:
  assumes pos: "0 < transactLimit d" and over: "transactLimit d < length ops"
  shows "1 < length (chunk ops (transactLimit d))
       \<and> concat (chunk ops (transactLimit d)) = ops
       \<and> (\<forall>part \<in> set (chunk ops (transactLimit d)). part \<noteq> [] \<and> length part \<le> transactLimit d)
       \<and> (\<exists>later. calls (snd (transactWrite d ops st))
               = calls st @ map (\<lambda>part. TransactWriteCall (map (transact_item (table d)) part))
                              (chunk ops (transactLimit d)) @ later
             \<and> (\<forall>c \<in> set later. \<exists>part \<in> set (chunk ops (transactLimit d)).
                   c = TransactWriteCall (map (transact_item (table d)) part)))
       \<and> (responses st = [] \<longrightarrow>
            fst (transactWrite d ops st)
              = Inr (ResAll (replicate (length (chunk ops (transactLimit d))) ResTrue))
            \<and> calls (snd (transactWrite d ops st))
              = calls st @ map (\<lambda>part. TransactWriteCall (map (transact_item (table d)) part))
                             (chunk ops (transactLimit d))
            \<and> responses (snd (transactWrite d ops st)) = [])
       \<and> length (transactWrite_parts d ops st) = length (chunk ops (transactLimit d))
       \<and> (\<forall>v. fst (transactWrite d ops st) = Inr v \<longrightarrow>
            (\<forall>x \<in> set (transactWrite_parts d ops st). \<exists>w. x = Some (Inr w)))
       \<and> (\<forall>e. fst (transactWrite d ops st) = Inl e \<longrightarrow>
            Some (Inl e) \<in> set (transactWrite_parts d ops st))"
proof -
  let ?L = "transactLimit d"
  let ?g = "\<lambda>part. TransactWriteCall (map (transact_item (table d)) part)"
  let ?f = "\<lambda>part. transact_attempt (?g part) 0"
  obtain ms st1 where se: "start_each ?f (chunk ops ?L) st = (ms, st1)"
    by (cases "start_each ?f (chunk ops ?L) st")
  have start: "start_transactWrite d ops st = (promise_all ms, st1)"
    using start_transactWrite_chunked [OF over, of st] se by simp
  obtain r2 st2 where run: "run (promise_all ms) st1 = (r2, st2)"
    by (cases "run (promise_all ms) st1")
  have tw: "transactWrite d ops st = (settled r2, st2)"
    by (simp add: transactWrite_def complete_def start run)
  have parts: "transactWrite_parts d ops st = member_outcomes r2"
    by (simp add: transactWrite_parts_def start run)
  have a: "1 < length (chunk ops ?L)" by (rule chunk_several [OF pos over])
  have b: "concat (chunk ops ?L) = ops" by (rule chunk_concat [OF pos])
  have c: "\<forall>part \<in> set (chunk ops ?L). part \<noteq> [] \<and> length part \<le> ?L"
    by (auto dest: chunk_part_nonempty chunk_part_length)
  have st1: "calls st1 = calls st @ map ?g (chunk ops ?L)" and len: "length ms = length (chunk ops ?L)"
    using start_each_calls [of ?f ?g "chunk ops ?L" st] se by (simp_all add: attempt_first)
  have leaves: "leaf_calls (promise_all ms) \<subseteq> ?g ` set (chunk ops ?L)"
    using start_each_leaves [of ?f "\<lambda>part. {?g part}" "chunk ops ?L" st] se
    by (auto simp: promise_all_leaves attempt_first)
  from run_calls [of "promise_all ms" st1] run
  obtain later where later: "calls st2 = calls st1 @ later" "set later \<subseteq> leaf_calls (promise_all ms)"
    by auto
  have e: "\<exists>later. calls (snd (transactWrite d ops st)) = calls st @ map ?g (chunk ops ?L) @ later
             \<and> (\<forall>c \<in> set later. \<exists>part \<in> set (chunk ops ?L). c = ?g part)"
    using later leaves st1 tw by (intro exI [of _ later]) auto
  have f: "fst (transactWrite d ops st) = Inr (ResAll (replicate (length (chunk ops ?L)) ResTrue))
         \<and> calls (snd (transactWrite d ops st)) = calls st @ map ?g (chunk ops ?L)
         \<and> responses (snd (transactWrite d ops st)) = []"
    if h: "responses st = []"
  proof -
    have "start_each ?f (chunk ops ?L) st
        = (map (\<lambda>part. TransactWait (?g part) 1 Succeeded) (chunk ops ?L),
           st\<lparr>calls := calls st @ map ?g (chunk ops ?L)\<rparr>)"
      by (rule start_each_healthy [OF _ h]) (rule attempt_healthy)
    with se have ms: "ms = map (\<lambda>part. TransactWait (?g part) 1 Succeeded) (chunk ops ?L)"
      and s1: "st1 = st\<lparr>calls := calls st @ map ?g (chunk ops ?L)\<rparr>"
      by simp_all
    from ms have calm: "list_all calm ms" by (simp add: list_all_iff)
    then have pa: "promise_all ms = All None ms"
      by (simp add: promise_all_def calm_not_rejected)
    from run_calm [OF calm, of st1] run pa len s1 h show ?thesis
      by (simp add: tw settled_all_true)
  qed
  from run_members [of "first_rejected (map outcome ms)" ms st1] run
  obtain e' ms' where r2: "r2 = All e' ms'" and l2: "length ms' = length ms"
    by (auto simp: promise_all_def)
  have g: "length (transactWrite_parts d ops st) = length (chunk ops ?L)"
    using r2 l2 len parts by simp
  have h: "\<forall>x \<in> set (transactWrite_parts d ops st). \<exists>w. x = Some (Inr w)"
    if "fst (transactWrite d ops st) = Inr v" for v
    using that tw parts settled_members [of r2 v] by simp
  have "coherent (promise_all ms)"
    using start_transactWrite_coherent [of d ops st] start by simp
  from run_coherent [OF this, of st1] run r2
  have co: "coherent (All e' ms')" "pending (All e' ms') = 0" by simp_all
  have i: "Some (Inl x) \<in> set (transactWrite_parts d ops st)"
    if "fst (transactWrite d ops st) = Inl x" for x
    using that tw parts r2 rejected_member [OF co, of x] by simp
  from a b c e f g h i show ?thesis by blast
qed


lemma batch_healthy:
  "responses st = [] \<Longrightarrow>
     (case send c st of (r, st') \<Rightarrow> (BatchWait r, st')) = (BatchWait Succeeded, st\<lparr>calls := calls st @ [c]\<rparr>)"
  by (simp add: send_def)

lemma putBatch_chunks:
  assumes pos: "0 < transactLimit d" and over: "transactLimit d < length items"
  shows "1 < length (chunk items (transactLimit d))
       \<and> concat (chunk items (transactLimit d)) = items
       \<and> (\<forall>part \<in> set (chunk items (transactLimit d)). part \<noteq> [] \<and> length part \<le> transactLimit d)
       \<and> calls (snd (putBatch d items st))
            = calls st @ map (BatchWriteCall (table d)) (chunk items (transactLimit d))
       \<and> (responses st = [] \<longrightarrow>
            fst (putBatch d items st)
              = Inr (ResAll (replicate (length (chunk items (transactLimit d))) ResTrue))
            \<and> responses (snd (putBatch d items st)) = [])
       \<and> putBatch_parts d items st
            = map (\<lambda>r. Some (case r of Succeeded \<Rightarrow> Inr ResTrue
                                | Failed message \<Rightarrow> Inl (new_DatabaseError message)))
                (answers (length (chunk items (transactLimit d))) (responses st))
       \<and> responses (snd (putBatch d items st))
            = drop (length (chunk items (transactLimit d))) (responses st)
       \<and> (\<forall>v. fst (putBatch d items st) = Inr v \<longrightarrow>
            (\<forall>x \<in> set (putBatch_parts d items st). \<exists>w. x = Some (Inr w)))
       \<and> (\<forall>e. fst (putBatch d items st) = Inl e \<longrightarrow>
            Some (Inl e) \<in> set (putBatch_parts d items st))"
proof -
  let ?L = "transactLimit d"
  let ?g = "BatchWriteCall (table d)"
  let ?f = "\<lambda>part st. case send (?g part) st of (r, st') \<Rightarrow> (BatchWait r, st')"
  obtain ms st1 where se: "start_each ?f (chunk items ?L) st = (ms, st1)"
    by (cases "start_each ?f (chunk items ?L) st")
  have start: "start_putBatch d items st = (promise_all ms, st1)"
    using start_putBatch_chunked [OF over, of st] se by simp
  obtain r2 st2 where run: "run (promise_all ms) st1 = (r2, st2)"
    by (cases "run (promise_all ms) st1")
  have tw: "putBatch d items st = (settled r2, st2)"
    by (simp add: putBatch_def complete_def start run)
  have parts: "putBatch_parts d items st = member_outcomes r2"
    by (simp add: putBatch_parts_def start run)
  have a: "1 < length (chunk items ?L)" by (rule chunk_several [OF pos over])
  have b: "concat (chunk items ?L) = items" by (rule chunk_concat [OF pos])
  have c: "\<forall>part \<in> set (chunk items ?L). part \<noteq> [] \<and> length part \<le> ?L"
    by (auto dest: chunk_part_nonempty chunk_part_length)
  have st1: "calls st1 = calls st @ map ?g (chunk items ?L)" and len: "length ms = length (chunk items ?L)"
    using start_each_calls [of ?f ?g "chunk items ?L" st] se by (simp_all add: batch_first)
  have "leaf_calls (fst (?f part st)) \<subseteq> {}" for part st
    by (simp add: case_prod_beta)
  from start_each_leaves [of ?f "\<lambda>part. {}" "chunk items ?L" st, OF this] se
  have leaves: "leaf_calls (promise_all ms) = {}"
    by (simp add: promise_all_leaves)
  from run_calls [of "promise_all ms" st1] run leaves
  have e: "calls (snd (putBatch d items st)) = calls st @ map ?g (chunk items ?L)"
    using st1 tw by auto
  have f: "fst (putBatch d items st) = Inr (ResAll (replicate (length (chunk items ?L)) ResTrue))
         \<and> responses (snd (putBatch d items st)) = []"
    if h: "responses st = []"
  proof -
    have "start_each ?f (chunk items ?L) st
        = (map (\<lambda>part. BatchWait Succeeded) (chunk items ?L),
           st\<lparr>calls := calls st @ map ?g (chunk items ?L)\<rparr>)"
      by (rule start_each_healthy [OF _ h]) (rule batch_healthy)
    with se have ms: "ms = map (\<lambda>part. BatchWait Succeeded) (chunk items ?L)"
      and s1: "st1 = st\<lparr>calls := calls st @ map ?g (chunk items ?L)\<rparr>"
      by simp_all
    from ms have calm: "list_all calm ms" by (simp add: list_all_iff)
    then have pa: "promise_all ms = All None ms"
      by (simp add: promise_all_def calm_not_rejected)
    from run_calm [OF calm, of st1] run pa len s1 h show ?thesis
      by (simp add: tw settled_all_true)
  qed
  from run_members [of "first_rejected (map outcome ms)" ms st1] run
  obtain e' ms' where r2: "r2 = All e' ms'" and l2: "length ms' = length ms"
    by (auto simp: promise_all_def)
  have sb: "ms = map BatchWait (answers (length (chunk items ?L)) (responses st))"
    and s1: "responses st1 = drop (length (chunk items ?L)) (responses st)"
    using se by (auto simp: start_each_batch)
  from run r2 have "fst (run (All (first_rejected (map outcome ms)) (map BatchWait (answers (length (chunk items ?L)) (responses st)))) st1) = All e' ms'"
    by (simp add: promise_all_def sb)
  from run_batch(1) [OF this]
  have ms': "ms' = map batch_answer (answers (length (chunk items ?L)) (responses st))" .
  have g: "putBatch_parts d items st
            = map (\<lambda>r. Some (case r of Succeeded \<Rightarrow> Inr ResTrue
                                | Failed message \<Rightarrow> Inl (new_DatabaseError message)))
                (answers (length (chunk items ?L)) (responses st))"
    using parts r2 ms' by (simp add: comp_def outcome_batch_answer)
  have "responses (snd (run (All (first_rejected (map outcome ms)) (map BatchWait (answers (length (chunk items ?L)) (responses st)))) st1)) = responses st1"
    by (rule run_batch(3))
  with run have g2: "responses (snd (putBatch d items st)) = drop (length (chunk items ?L)) (responses st)"
    by (simp add: promise_all_def sb tw s1)
  have h: "\<forall>x \<in> set (putBatch_parts d items st). \<exists>w. x = Some (Inr w)"
    if "fst (putBatch d items st) = Inr v" for v
    using that tw parts settled_members [of r2 v] by simp
  have "coherent (promise_all ms)"
    using start_putBatch_coherent [of d items st] start by simp
  from run_coherent [OF this, of st1] run r2
  have co: "coherent (All e' ms')" "pending (All e' ms') = 0" by simp_all
  have i: "Some (Inl x) \<in> set (putBatch_parts d items st)"
    if "fst (putBatch d items st) = Inl x" for x
    using that tw parts r2 rejected_member [OF co, of x] by simp
  from a b c e f g g2 h i show ?thesis by blast
qed

lemma complete_settles:
  assumes "coherent (fst started)"
  shows "\<exists>x. outcome (fst (run (fst started) (snd started))) = Some x \<and> fst (complete started) = x"
proof -
  from run_settles [OF assms, of "snd started"]
  obtain x where "outcome (fst (run (fst started) (snd started))) = Some x" by auto
  then show ?thesis by (simp add: complete_def settled_def case_prod_beta)
qed

lemma transactWrite_settles:
  "\<exists>x. outcome (fst (run (fst (start_transactWrite d ops st)) (snd (start_transactWrite d ops st)))) = Some x
       \<and> fst (transactWrite d ops st) = x"
  unfolding transactWrite_def by (rule complete_settles) (rule start_transactWrite_coherent)

lemma putBatch_settles:
  "\<exists>x. outcome (fst (run (fst (start_putBatch d items st)) (snd (start_putBatch d items st)))) = Some x
       \<and> fst (putBatch d items st) = x"
  unfolding putBatch_def by (rule complete_settles) (rule start_putBatch_coherent)

lemmas run_eval =
  transactWrite_def putBatch_def complete_def settled_def start_transactWrite.simps start_putBatch.simps
  chunk.simps promise_all_def transact_attempt_def transact_answer_def batch_answer_def
  send_def run.simps with_table_def starts_with_def new_DatabaseError_def

text \<open>
  Three runs of a write in two chunks; the client is shown as it is when nothing is
  pending any more. The calls for both chunks are sent before either is sent again.
  When the second chunk fails, the combined call is rejected with that failure, and the
  first chunk is still sent again after its conflict. With twenty conflicts in a row,
  the two calls share them and both succeed.
\<close>

lemma transactWrite_two_conflicts:
  "transactWrite \<lparr>table = ''t'', transactLimit = 1\<rparr> [Delete [] None, Put [] None]
      \<lparr>responses = [Failed ''TransactionConflict'', Failed ''TransactionConflict''], calls = [],
         schedule = [1, 0, 1]\<rparr>
     = (Inr (ResAll [ResTrue, ResTrue]),
        \<lparr>responses = [],
           calls = [TransactWriteCall [Delete [] (Some ''t'')], TransactWriteCall [Put [] (Some ''t'')],
                    TransactWriteCall [Put [] (Some ''t'')], TransactWriteCall [Delete [] (Some ''t'')]],
           schedule = []\<rparr>)"
  by (simp add: run_eval)

lemma transactWrite_interleaved:
  "transactWrite \<lparr>table = ''t'', transactLimit = 1\<rparr> [Delete [] None, Put [] None]
      \<lparr>responses = [Failed ''TransactionConflict'', Failed ''ValidationException''], calls = [],
         schedule = []\<rparr>
     = (Inl (DatabaseError ''DatabaseError: ValidationException''),
        \<lparr>responses = [],
           calls = [TransactWriteCall [Delete [] (Some ''t'')], TransactWriteCall [Put [] (Some ''t'')],
                    TransactWriteCall [Delete [] (Some ''t'')]],
           schedule = []\<rparr>)"
  by (simp add: run_eval)

lemma transactWrite_twenty_conflicts:
  "fst (transactWrite \<lparr>table = ''t'', transactLimit = 1\<rparr> [Put [] None, Put [] None]
      \<lparr>responses = replicate 20 (Failed ''TransactionConflict''), calls = [], schedule = []\<rparr>)
     = Inr (ResAll [ResTrue, ResTrue])"
  by (simp add: run_eval numeral_eq_Suc)

text \<open>
  Claim C6, as the code has it. With a positive limit, a list longer than the limit is
  cut by \<open>transactWrite\<close>, and likewise by \<open>putBatch\<close>, into several chunks: each is
  non-empty and within the limit, and together they are the list, every element once
  and in order. Whatever the store answers and in whatever order the waits end, the
  store first receives each chunk once, in the order of the chunks, and every later
  call of \<open>transactWrite\<close> sends one of these chunks again after a conflict;
  \<open>putBatch\<close> sends nothing more, and the call for each of its chunks settles as the
  store answers it. A store that accepts every call receives each chunk exactly once.
  The combined call succeeds only if the call for every chunk does, and it is rejected
  only with the error of a chunk whose call is rejected. (The calls of the store are
  those it has received when nothing is pending any more: after a rejection the calls
  for the other chunks go on.)
\<close>

theorem writes_are_chunked:
  assumes pos: "0 < transactLimit d"
  shows
    "(transactLimit d < length ops \<longrightarrow>
        1 < length (chunk ops (transactLimit d))
      \<and> concat (chunk ops (transactLimit d)) = ops
      \<and> (\<forall>part \<in> set (chunk ops (transactLimit d)). part \<noteq> [] \<and> length part \<le> transactLimit d)
      \<and> (\<exists>later. calls (snd (transactWrite d ops st))
              = calls st @ map (\<lambda>part. TransactWriteCall (map (transact_item (table d)) part))
                             (chunk ops (transactLimit d)) @ later
            \<and> (\<forall>c \<in> set later. \<exists>part \<in> set (chunk ops (transactLimit d)).
                  c = TransactWriteCall (map (transact_item (table d)) part)))
      \<and> (responses st = [] \<longrightarrow>
           fst (transactWrite d ops st)
             = Inr (ResAll (replicate (length (chunk ops (transactLimit d))) ResTrue))
           \<and> calls (snd (transactWrite d ops st))
             = calls st @ map (\<lambda>part. TransactWriteCall (map (transact_item (table d)) part))
                            (chunk ops (transactLimit d))
           \<and> responses (snd (transactWrite d ops st)) = [])
      \<and> length (transactWrite_parts d ops st) = length (chunk ops (transactLimit d))
      \<and> (\<forall>v. fst (transactWrite d ops st) = Inr v \<longrightarrow>
           (\<forall>x \<in> set (transactWrite_parts d ops st). \<exists>w. x = Some (Inr w)))
      \<and> (\<forall>e. fst (transactWrite d ops st) = Inl e \<longrightarrow>
           Some (Inl e) \<in> set (transactWrite_parts d ops st)))
   \<and> (transactLimit d < length items \<longrightarrow>
        1 < length (chunk items (transactLimit d))
      \<and> concat (chunk items (transactLimit d)) = items
      \<and> (\<forall>part \<in> set (chunk items (transactLimit d)). part \<noteq> [] \<and> length part \<le> transactLimit d)
      \<and> calls (snd (putBatch d items st))
           = calls st @ map (BatchWriteCall (table d)) (chunk items (transactLimit d))
      \<and> (responses st = [] \<longrightarrow>
           fst (putBatch d items st)
             = Inr (ResAll (replicate (length (chunk items (transactLimit d))) ResTrue))
           \<and> responses (snd (putBatch d items st)) = [])
      \<and> putBatch_parts d items st
           = map (\<lambda>r. Some (case r of Succeeded \<Rightarrow> Inr ResTrue
                               | Failed message \<Rightarrow> Inl (new_DatabaseError message)))
               (answers (length (chunk items (transactLimit d))) (responses st))
      \<and> responses (snd (putBatch d items st))
           = drop (length (chunk items (transactLimit d))) (responses st)
      \<and> (\<forall>v. fst (putBatch d items st) = Inr v \<longrightarrow>
           (\<forall>x \<in> set (putBatch_parts d items st). \<exists>w. x = Some (Inr w)))
      \<and> (\<forall>e. fst (putBatch d items st) = Inl e \<longrightarrow>
           Some (Inl e) \<in> set (putBatch_parts d items st)))"
  using transactWrite_chunks [OF pos, of ops st] putBatch_chunks [OF pos, of items st]
  by blast

theorem writes_are_chunked_witness:
  "fst (transactWrite \<lparr>table = ''t'', transactLimit = 2\<rparr>
     [Delete [] None, Put [] None, Delete [] None] \<lparr>responses = [], calls = [], schedule = [1]\<rparr>)
     = Inr (ResAll [ResTrue, ResTrue])
   \<and> calls (snd (transactWrite \<lparr>table = ''t'', transactLimit = 2\<rparr>
     [Delete [] None, Put [] None, Delete [] None] \<lparr>responses = [], calls = [], schedule = [1]\<rparr>))
     = [TransactWriteCall [Delete [] (Some ''t''), Put [] (Some ''t'')],
        TransactWriteCall [Delete [] (Some ''t'')]]
   \<and> fst (putBatch \<lparr>table = ''t'', transactLimit = 2\<rparr>
     [[], [], []] \<lparr>responses = [], calls = [], schedule = [1]\<rparr>)
     = Inr (ResAll [ResTrue, ResTrue])
   \<and> calls (snd (putBatch \<lparr>table = ''t'', transactLimit = 2\<rparr>
     [[], [], []] \<lparr>responses = [Failed ''ValidationException''], calls = [], schedule = [1]\<rparr>))
     = [BatchWriteCall ''t'' [[], []], BatchWriteCall ''t'' [[]]]
   \<and> putBatch_parts \<lparr>table = ''t'', transactLimit = 2\<rparr>
     [[], [], []] \<lparr>responses = [Failed ''ValidationException''], calls = [], schedule = [1]\<rparr>
     = [Some (Inl (DatabaseError ''DatabaseError: ValidationException'')), Some (Inr ResTrue)]"
proof -
  let ?d = "\<lparr>table = ''t'', transactLimit = 2\<rparr>"
  let ?ops = "[Delete [] None, Put [] None, Delete [] None]"
  let ?items = "[[], [], []] :: obj list"
  let ?st = "\<lparr>responses = [], calls = [], schedule = [1]\<rparr>"
  let ?st' = "\<lparr>responses = [Failed ''ValidationException''], calls = [], schedule = [1]\<rparr>"
  have pos: "0 < transactLimit ?d" by simp
  have c1: "chunk ?ops 2 = [[Delete [] None, Put [] None], [Delete [] None]]"
    by (simp add: chunk.simps)
  have c2: "chunk ?items 2 = [[[], []], [[]]]"
    by (simp add: chunk.simps)
  from writes_are_chunked [OF pos, of ?ops ?st ?items]
  have a: "fst (transactWrite ?d ?ops ?st) = Inr (ResAll [ResTrue, ResTrue])
      \<and> calls (snd (transactWrite ?d ?ops ?st))
        = [TransactWriteCall [Delete [] (Some ''t''), Put [] (Some ''t'')],
           TransactWriteCall [Delete [] (Some ''t'')]]
      \<and> fst (putBatch ?d ?items ?st) = Inr (ResAll [ResTrue, ResTrue])"
    by (simp add: c1 c2 with_table_def)
  have a2: "answers 2 [Failed ''ValidationException''] = [Failed ''ValidationException'', Succeeded]"
    by (simp add: numeral_2_eq_2)
  from writes_are_chunked [OF pos, of ?ops ?st' ?items]
  have b: "calls (snd (putBatch ?d ?items ?st')) = [BatchWriteCall ''t'' [[], []], BatchWriteCall ''t'' [[]]]
      \<and> putBatch_parts ?d ?items ?st'
        = [Some (Inl (DatabaseError ''DatabaseError: ValidationException'')), Some (Inr ResTrue)]"
    by (simp add: c2 a2 new_DatabaseError_def)
  from a b show ?thesis by blast
qed

text \<open>
  Claim C6 as stated fails for the limit 0: \<open>lodash.chunk\<close> cuts the list into no chunk
  at all, \<open>Promise.all\<close> of nothing is fulfilled, and the one operation submitted is
  never sent to the store.
\<close>

theorem writes_zero_limit_counterexample:
  "chunk [Put [] None] 0 = []
   \<and> transactWrite \<lparr>table = ''t'', transactLimit = 0\<rparr> [Put [] None]
        \<lparr>responses = [], calls = [], schedule = []\<rparr>
     = (Inr (ResAll []), \<lparr>responses = [], calls = [], schedule = []\<rparr>)
   \<and> putBatch \<lparr>table = ''t'', transactLimit = 0\<rparr> [[]]
        \<lparr>responses = [], calls = [], schedule = []\<rparr>
     = (Inr (ResAll []), \<lparr>responses = [], calls = [], schedule = []\<rparr>)"
  by (simp add: run_eval)

section \<open>Properties of \<open>DynamoCollection.update\<close>\<close>



lemma spread_Nil: "spread a [] = a"
  by (simp add: spread_def)


lemma pull_fields_no_changes:
  "fold (pull_field data []) fs (prev, cur, cc) = (prev', cur', cc') \<Longrightarrow> cc' = cc"
  by (induction fs arbitrary: prev cur) (auto simp: pull_field_def)



lemma key_loop_error: "key_loop fs data k = Inl e \<Longrightarrow> \<exists>m. e = SyntaxError m"
  by (induction fs arbitrary: k) (auto split: if_splits)

lemma resolve_keys_error: "resolve_keys p data = Inl e \<Longrightarrow> \<exists>m. e = SyntaxError m"
  by (auto simp: resolve_keys_def key_def split: sum.splits dest: key_loop_error)

lemma update_pattern_no_changes:
  "update_pattern data p [] = (case resolve_keys p data of Inl e \<Rightarrow> (if (case when p of None \<Rightarrow> False | Some w \<Rightarrow> \<not> w data) then Inr ([], []) else Inl e) | Inr k \<Rightarrow> Inr ([], []))"
proof -
  obtain pv cur cc where pcc:
    "(case fields_opt p of Some fs \<Rightarrow> fold (pull_field data []) fs ([], [], [])
        | None \<Rightarrow> (data, spread data [], [])) = (pv, cur, cc)"
    by (metis prod_cases3)
  have cc: "cc = []"
  proof (cases "fields_opt p")
    case None
    with pcc show ?thesis by simp
  next
    case (Some fs)
    with pcc have "fold (pull_field data []) fs ([], [], []) = (pv, cur, cc)" by simp
    then show ?thesis by (rule pull_fields_no_changes)
  qed
  show ?thesis
    unfolding update_pattern_def pcc
    by (simp add: spread_Nil cc split: option.splits sum.splits)
qed

lemma update_patterns_no_changes:
  "update_patterns data ps [] [] = (Inr [], [])
     \<or> (\<exists>m. update_patterns data ps [] [] = (Inl (SyntaxError m), []))"
proof (induction ps)
  case Nil
  then show ?case by simp
next
  case (Cons p ps)
  show ?case
  proof (cases "update_pattern data p []")
    case (Inl e)
    then have "\<exists>m. e = SyntaxError m"
      by (auto simp: update_pattern_no_changes split: sum.splits if_splits dest: resolve_keys_error)
    with Inl show ?thesis by auto
  next
    case (Inr r)
    then have "r = ([], [])"
      by (auto simp: update_pattern_no_changes split: sum.splits if_splits)
    with Inr Cons.IH show ?thesis by simp
  qed
qed

lemma update_patterns_no_changes_resolved:
  "\<forall>p \<in> set ps. \<exists>k. resolve_keys p data = Inr k \<Longrightarrow> update_patterns data ps [] [] = (Inr [], [])"
  by (induction ps) (auto simp: update_pattern_no_changes)

lemma strip_keys_idem: "strip_keys (strip_keys ob) = strip_keys ob"
  by (induction ob) (auto simp: strip_keys_def)

lemma update_pattern_changes:
  "update_pattern data p ch = Inr r \<Longrightarrow> snd r = ch \<or> snd r = strip_keys ch"
proof -
  assume a: "update_pattern data p ch = Inr r"
  obtain pv cur cc where pcc:
    "(case fields_opt p of Some fs \<Rightarrow> fold (pull_field data ch) fs ([], [], [])
        | None \<Rightarrow> (data, spread data ch, ch)) = (pv, cur, cc)"
    by (metis prod_cases3)
  have cc: "fields_opt p = None \<Longrightarrow> cc = ch" using pcc by simp
  from a show ?thesis
    unfolding update_pattern_def pcc
    by (auto simp: updateExpression_def Let_def strip_keys_def cc split: if_splits sum.splits)
qed

lemma update_patterns_changes:
  "snd (update_patterns data ps ch ops) = ch \<or> snd (update_patterns data ps ch ops) = strip_keys ch"
proof (induction ps arbitrary: ch ops)
  case Nil
  then show ?case by simp
next
  case (Cons p ps)
  show ?case
  proof (cases "update_pattern data p ch")
    case (Inl e)
    then show ?thesis by simp
  next
    case (Inr r)
    from update_pattern_changes [OF Inr] Cons.IH [of "snd r" "ops @ fst r"] Inr
    show ?thesis by (auto simp: strip_keys_idem)
  qed
qed

lemma update_changes_left:
  "fst (snd (update c data changes extraOps st))
     = snd (update_patterns data (keys c) (strip_unchanged data changes) [])"
  by (simp add: update_def Let_def split: prod.splits sum.splits)

lemma strip_unchanged_idem:
  "strip_unchanged data (strip_unchanged data changes) = strip_unchanged data changes"
  by (simp add: strip_unchanged_def)























text \<open>
  Claim C7. With an empty change set and no extra operations, \<open>update\<close> emits no
  operation and does not call the store: the client is as before, and the call returns
  \<open>undefined\<close> without invoking \<open>transactWrite\<close>. The only other outcome, also
  without any store call, is the \<open>SyntaxError\<close> of a placeholder made of digits; it
  does not occur when the key templates resolve on the entity.
\<close>

theorem update_empty_change_set:
  "snd (snd (update c data [] None st)) = st
   \<and> fst (snd (update c data [] None st)) = []
   \<and> (fst (update c data [] None st) = Inr None
        \<or> (\<exists>m. fst (update c data [] None st) = Inl (SyntaxError m)))
   \<and> (\<forall>ops. fst (update_patterns data (keys c) (strip_unchanged data []) []) = Inr ops \<longrightarrow> ops = [])
   \<and> ((\<forall>p \<in> set (keys c). \<exists>k. resolve_keys p data = Inr k)
        \<longrightarrow> fst (update c data [] None st) = Inr None)"
proof -
  have s: "strip_unchanged data [] = []" by (simp add: strip_unchanged_def)
  consider (ok) "update_patterns data (keys c) [] [] = (Inr [], [])"
    | (err) m where "update_patterns data (keys c) [] [] = (Inl (SyntaxError m), [])"
    using update_patterns_no_changes [of data "keys c"] by blast
  then have main: "snd (snd (update c data [] None st)) = st
   \<and> fst (snd (update c data [] None st)) = []
   \<and> (fst (update c data [] None st) = Inr None
        \<or> (\<exists>m. fst (update c data [] None st) = Inl (SyntaxError m)))
   \<and> (\<forall>ops. fst (update_patterns data (keys c) (strip_unchanged data []) []) = Inr ops \<longrightarrow> ops = [])"
  proof cases
    case ok
    then show ?thesis by (simp add: update_def s)
  next
    case err
    then show ?thesis by (simp add: update_def s)
  qed
  have "fst (update c data [] None st) = Inr None"
    if "\<forall>p \<in> set (keys c). \<exists>k. resolve_keys p data = Inr k"
    using update_patterns_no_changes_resolved [OF that] by (simp add: update_def s)
  with main show ?thesis by blast
qed

theorem update_empty_change_set_witness:
  "update \<lparr>dynamo = \<lparr>table = ''t'', transactLimit = 25\<rparr>,
            keys = [\<lparr>pk = ''user#{id}'', sk = ''profile'', fields_opt = Some [''name''], when = None\<rparr>,
                    \<lparr>pk = ''mail#{email}'', sk = ''user#{id}'', fields_opt = None, when = None\<rparr>]\<rparr>
     [(''id'', JStr ''42''), (''name'', JStr ''Ann'')] [] None \<lparr>responses = [], calls = [], schedule = []\<rparr>
   = (Inr None, [], \<lparr>responses = [], calls = [], schedule = []\<rparr>)"
proof -
  let ?c = "\<lparr>dynamo = \<lparr>table = ''t'', transactLimit = 25\<rparr>,
            keys = [\<lparr>pk = ''user#{id}'', sk = ''profile'', fields_opt = Some [''name''], when = None\<rparr>,
                    \<lparr>pk = ''mail#{email}'', sk = ''user#{id}'', fields_opt = None, when = None\<rparr>]\<rparr>"
  let ?data = "[(''id'', JStr ''42''), (''name'', JStr ''Ann'')]"
  have h: "\<forall>p \<in> set (keys ?c). \<exists>k. resolve_keys p ?data = Inr k"
    by (simp add: key_eval)
  from update_empty_change_set [of ?c ?data "\<lparr>responses = [], calls = [], schedule = []\<rparr>"] h
  have "snd (snd (update ?c ?data [] None \<lparr>responses = [], calls = [], schedule = []\<rparr>)) = \<lparr>responses = [], calls = [], schedule = []\<rparr>
      \<and> fst (snd (update ?c ?data [] None \<lparr>responses = [], calls = [], schedule = []\<rparr>)) = []
      \<and> fst (update ?c ?data [] None \<lparr>responses = [], calls = [], schedule = []\<rparr>) = Inr None"
    by blast
  then show ?thesis by (metis prod.collapse)
qed

text \<open>
  Claim C10. \<open>update\<close> mutates the change set it is given: every field whose new
  value deep-equals the entity's value is gone from it after the call, what is left are
  fields of the original change set that did change, and the outcome of the call is the
  same as on the stripped change set, so the operations are computed from it. (What is
  left is the stripped change set, less \<open>pk\<close> and \<open>sk\<close> when a pattern without field
  list has built an update expression from it.)
\<close>

theorem update_strips_change_set:
  "(\<forall>kv \<in> set changes. unchanged data kv \<longrightarrow> kv \<notin> set (fst (snd (update c data changes extraOps st))))
   \<and> (\<forall>kv \<in> set (fst (snd (update c data changes extraOps st))). kv \<in> set changes \<and> \<not> unchanged data kv)
   \<and> (fst (snd (update c data changes extraOps st)) = strip_unchanged data changes
        \<or> fst (snd (update c data changes extraOps st))
             = AList.delete ''sk'' (AList.delete ''pk'' (strip_unchanged data changes)))
   \<and> update c data changes extraOps st = update c data (strip_unchanged data changes) extraOps st"
proof -
  let ?left = "fst (snd (update c data changes extraOps st))"
  have alt: "?left = strip_unchanged data changes \<or> ?left = strip_keys (strip_unchanged data changes)"
    using update_patterns_changes [of data "keys c" "strip_unchanged data changes" "[]"]
    by (simp add: update_changes_left)
  have sub: "set (strip_keys (strip_unchanged data changes)) \<subseteq> set (strip_unchanged data changes)"
    by (auto simp: strip_keys_def AList.delete_eq)
  from alt sub have in_strip: "set ?left \<subseteq> set (strip_unchanged data changes)" by auto
  have a: "\<forall>kv \<in> set changes. unchanged data kv \<longrightarrow> kv \<notin> set ?left"
    using in_strip by (auto simp: strip_unchanged_def)
  have b: "\<forall>kv \<in> set ?left. kv \<in> set changes \<and> \<not> unchanged data kv"
    using in_strip by (auto simp: strip_unchanged_def)
  have d: "update c data changes extraOps st = update c data (strip_unchanged data changes) extraOps st"
    by (simp add: update_def strip_unchanged_idem)
  from a b alt d show ?thesis unfolding strip_keys_def by blast
qed

theorem update_strips_change_set_witness:
  "fst (snd (update \<lparr>dynamo = \<lparr>table = ''t'', transactLimit = 25\<rparr>,
            keys = [\<lparr>pk = ''user#{id}'', sk = ''profile'', fields_opt = Some [''name''], when = None\<rparr>]\<rparr>
     [(''id'', JStr ''42''), (''name'', JStr ''Ann'')]
     [(''id'', JStr ''42''), (''name'', JStr ''Bob'')] None \<lparr>responses = [], calls = [], schedule = []\<rparr>))
   = [(''name'', JStr ''Bob'')]"
proof -
  let ?c = "\<lparr>dynamo = \<lparr>table = ''t'', transactLimit = 25\<rparr>,
            keys = [\<lparr>pk = ''user#{id}'', sk = ''profile'', fields_opt = Some [''name''], when = None\<rparr>]\<rparr>"
  let ?data = "[(''id'', JStr ''42''), (''name'', JStr ''Ann'')]"
  let ?changes = "[(''id'', JStr ''42''), (''name'', JStr ''Bob'')]"
  let ?left = "fst (snd (update ?c ?data ?changes None \<lparr>responses = [], calls = [], schedule = []\<rparr>))"
  have s: "strip_unchanged ?data ?changes = [(''name'', JStr ''Bob'')]"
    by (simp add: strip_unchanged_def unchanged_def)
  from update_strips_change_set [of ?changes ?data ?c None "\<lparr>responses = [], calls = [], schedule = []\<rparr>"]
  have "?left = strip_unchanged ?data ?changes
        \<or> ?left = AList.delete ''sk'' (AList.delete ''pk'' (strip_unchanged ?data ?changes))"
    by blast
  then show ?thesis by (simp add: s AList.delete_eq)
qed


section \<open>Properties of the partitioner\<close>

lemma bit_below: "x < 2 ^ n \<Longrightarrow> bit (x :: nat) k \<Longrightarrow> k < n"
proof (rule ccontr)
  assume x: "x < 2 ^ n" and b: "bit x k" and "\<not> k < n"
  then have "(2::nat) ^ n \<le> 2 ^ k" by (intro power_increasing) auto
  with x have "x < 2 ^ k" by (rule less_le_trans)
  then have "\<not> bit x k" by (simp add: bit_iff_odd)
  with b show False by simp
qed

lemma or_low: "(d :: nat) < 2 ^ n \<Longrightarrow> push_bit n c OR d = c * 2 ^ n + d"
proof -
  assume d: "d < 2 ^ n"
  have "push_bit n c AND d = 0"
    by (rule bit_eqI) (auto simp: bit_simps dest: bit_below [OF d])
  then have "push_bit n c + d = push_bit n c OR d"
    by (rule disjunctive_add_eq_or)
  then show ?thesis by (simp add: push_bit_eq_mult)
qed

lemma or_bytes_nat:
  assumes "a < 256" "b < 256" "c < 256" "d < 256"
  shows "push_bit 24 a OR push_bit 16 b OR push_bit 8 c OR d = a * 2 ^ 24 + b * 2 ^ 16 + c * 2 ^ 8 + (d :: nat)"
proof -
  have 1: "push_bit 8 c OR d = c * 2 ^ 8 + d"
    using assms by (intro or_low) simp
  have 2: "push_bit 16 b OR (c * 2 ^ 8 + d) = b * 2 ^ 16 + (c * 2 ^ 8 + d)"
    using assms by (intro or_low) simp
  have 3: "push_bit 24 a OR (b * 2 ^ 16 + (c * 2 ^ 8 + d)) = a * 2 ^ 24 + (b * 2 ^ 16 + (c * 2 ^ 8 + d))"
    using assms by (intro or_low) simp
  have "push_bit 24 a OR push_bit 16 b OR push_bit 8 c OR d
      = a * 2 ^ 24 + (b * 2 ^ 16 + (c * 2 ^ 8 + d))"
    by (simp only: 1 2 3)
  then show ?thesis by (simp only: add.assoc)
qed

lemma hashValueHash_bytes:
  assumes "a < 256" "b < 256" "c < 256" "d < 256"
  shows "hashValueHash a b c d = a * 2 ^ 24 + b * 2 ^ 16 + c * 2 ^ 8 + d"
proof -
  have "(push_bit 24 (of_nat a) OR push_bit 16 (of_nat b) OR push_bit 8 (of_nat c) OR of_nat d :: 32 word)
      = of_nat (push_bit 24 a OR push_bit 16 b OR push_bit 8 c OR d)"
    by (simp add: of_nat_or_eq of_nat_push_bit)
  also have "\<dots> = of_nat (a * 2 ^ 24 + b * 2 ^ 16 + c * 2 ^ 8 + d)"
    by (simp only: or_bytes_nat [OF assms])
  finally have "hashValueHash a b c d
      = unat (of_nat (a * 2 ^ 24 + b * 2 ^ 16 + c * 2 ^ 8 + d) :: 32 word)"
    by (simp add: hashValueHash_def)
  also have "\<dots> = (a * 2 ^ 24 + b * 2 ^ 16 + c * 2 ^ 8 + d) mod 2 ^ LENGTH(32)"
    by (rule unat_of_nat)
  also have "\<dots> = a * 2 ^ 24 + b * 2 ^ 16 + c * 2 ^ 8 + d"
    using assms by simp
  finally show ?thesis .
qed

lemma code_at_byte: "code_at x i < 256"
  by (simp add: code_at_def char_code_def)

text \<open>
  Claim C9, as the code has it. For a positive number of partitions the bucket is an
  integer in \<open>[0, partitions)\<close>: the codes of the first four characters of the
  digest's hexadecimal text (not four bytes of the digest), combined into an unsigned
  32-bit integer with the fourth character's code most significant and the first
  character's code least significant, reduced modulo \<open>partitions\<close>. It is a function
  of the key and the number of partitions.
\<close>

theorem partition_bucket:
  assumes "0 < partitions"
  shows "\<exists>b. partition hash k partitions = Some b \<and> 0 \<le> b \<and> b < partitions
           \<and> b = int (code_at (hash k) 3 * 2 ^ 24 + code_at (hash k) 2 * 2 ^ 16
                        + code_at (hash k) 1 * 2 ^ 8 + code_at (hash k) 0) mod partitions"
proof -
  have "hashValue hash k = code_at (hash k) 3 * 2 ^ 24 + code_at (hash k) 2 * 2 ^ 16
                        + code_at (hash k) 1 * 2 ^ 8 + code_at (hash k) 0"
    unfolding hashValue_def by (rule hashValueHash_bytes) (rule code_at_byte)+
  with assms show ?thesis by (simp add: partition_def)
qed

theorem partition_bucket_witness:
  "partition (\<lambda>k. ''a9993e364706816aba3e25717850c26c9cd0d89d'') ''abc'' 1000 = Some 553"
proof -
  let ?h = "\<lambda>k :: string. ''a9993e364706816aba3e25717850c26c9cd0d89d''"
  have p: "(0::int) < 1000" by simp
  have c: "code_at (?h ''abc'') 3 = 57" "code_at (?h ''abc'') 2 = 57"
    "code_at (?h ''abc'') 1 = 57" "code_at (?h ''abc'') 0 = 97"
    by (simp_all add: code_at_def char_code_def)
  from partition_bucket [OF p, of ?h "''abc''"] show ?thesis
    unfolding c by simp
qed

text \<open>
  Claim C9 as stated fails: on the SHA-1 digest of \<open>abc\<close>, the bucket of the code is
  not the one the first four digest bytes give when combined big-endian.
\<close>

theorem partition_digest_bytes_counterexample:
  "partition (\<lambda>k. ''a9993e364706816aba3e25717850c26c9cd0d89d'') ''abc'' 1000 = Some 553
   \<and> partition_of_digest_bytes (\<lambda>k. ''a9993e364706816aba3e25717850c26c9cd0d89d'') ''abc'' 1000 = 438"
proof -
  let ?h = "\<lambda>k :: string. ''a9993e364706816aba3e25717850c26c9cd0d89d''"
  have c: "code_at (?h ''abc'') 3 = 57" "code_at (?h ''abc'') 2 = 57"
    "code_at (?h ''abc'') 1 = 57" "code_at (?h ''abc'') 0 = 97"
    by (simp_all add: code_at_def char_code_def)
  have "hashValue ?h ''abc'' = 960051553"
    unfolding hashValue_def c by (simp add: hashValueHash_bytes)
  then have a: "partition ?h ''abc'' 1000 = Some 553"
    by (simp add: partition_def)
  have d: "digest_byte (?h ''abc'') 0 = 169" "digest_byte (?h ''abc'') 1 = 153"
    "digest_byte (?h ''abc'') 2 = 62" "digest_byte (?h ''abc'') 3 = 54"
    by (simp_all add: digest_byte_def hex_value_def char_code_def)
  have b: "partition_of_digest_bytes ?h ''abc'' 1000 = 438"
    unfolding partition_of_digest_bytes_def d by simp
  from a b show ?thesis by simp
qed

section \<open>Properties of the filters of \<open>query\<close>\<close>

lemma filter_value_of_cases:
  "filter_value_of ''true'' = FBool True"
  "filter_value_of ''false'' = FBool False"
  "Number v = Integer n \<Longrightarrow> n \<noteq> 0 \<Longrightarrow> filter_value_of v = FNum n"
  "Number v = Integer 0 \<Longrightarrow> filter_value_of v = filter_literal v"
  "Number v = NaN \<Longrightarrow> filter_value_of v = filter_literal v"
  by (simp_all add: filter_value_of_def Number_def trim_def is_space_def char_code_def
        is_digit_def filter_literal_def)

text \<open>
  Claim C8 at the filter \<open>count = 0\<close>: the value text \<open>0\<close> parses as the number 0,
  and the value bound to \<open>:count\<close> is the text \<open>0\<close>, not the number: the test
  \<open>if (asNumber)\<close> is false for 0.
\<close>

theorem query_filter_zero:
  "binds_value (query_filter ''count = 0'') = ('':count'', FStr ''0'')
   \<and> Number ''0'' = Integer 0"
  by (simp add: query_filter_def Let_def filter_value_of_def Number_def trim_def is_space_def
        char_code_def is_digit_def within_exact_def filter_literal_def)

section \<open>Properties of the cursor codec\<close>

lemma base64_char_inverse:
  assumes "i < 64"
  shows "unbase64 (base64_char i) = Some i" and "base64_char i \<noteq> CHR ''=''"
proof -
  consider "i < 26" | "26 \<le> i" "i < 52" | "52 \<le> i" "i < 62" | "i = 62" | "i = 63"
    using assms by linarith
  then have "unbase64 (base64_char i) = Some i \<and> char_code (base64_char i) \<noteq> 61"
  proof cases
    case 1
    then show ?thesis by (auto simp: base64_char_def unbase64_def char_code_def Let_def)
  next
    case 2
    then show ?thesis by (auto simp: base64_char_def unbase64_def char_code_def Let_def)
  next
    case 3
    then show ?thesis by (auto simp: base64_char_def unbase64_def char_code_def Let_def)
  next
    case 4
    then show ?thesis by (auto simp: base64_char_def unbase64_def char_code_def Let_def)
  next
    case 5
    then show ?thesis by (auto simp: base64_char_def unbase64_def char_code_def Let_def)
  qed
  then show "unbase64 (base64_char i) = Some i" and "base64_char i \<noteq> CHR ''=''"
    by (auto simp: char_code_def)
qed

lemma sextets_char: "i < 64 \<Longrightarrow> sextets (base64_char i # s) = i # sextets s"
  by (simp add: sextets_def base64_char_inverse)

lemma sextets_pad: "sextets (CHR ''='' # s) = []"
  by (simp add: sextets_def)

lemma sextets_Nil: "sextets [] = []"
  by (simp add: sextets_def)

lemma base64_bytes_sextets: "base64_bytes s = sextet_bytes (sextets s)"
  by (simp add: base64_bytes_def sextets_def)

lemma small: "b < 256 \<Longrightarrow> b div 16 < (16::nat)" "c < 256 \<Longrightarrow> c div 64 < (4::nat)" "a < 256 \<Longrightarrow> a div 4 < (64::nat)"
  by (simp_all add: div_less_iff_less_mult)

lemma regroup1: "a div 4 * 4 + a mod 4 * 16 div 16 = (a :: nat)"
  by simp

lemma regroup2:
  "b < 256 \<Longrightarrow> a div 4 * 4 + (a mod 4 * 16 + b div 16) div 16 = (a :: nat)"
  using small(1) [of b] by simp

lemma regroup3:
  "(a mod 4 * 16 + b div 16) mod 16 * 16 + b mod 16 * 4 div 4 = (b :: nat)" if "b < 256"
  using small(1) [OF that] by simp

lemma regroup4:
  "(a mod 4 * 16 + b div 16) mod 16 * 16 + (b mod 16 * 4 + c div 64) div 4 = (b :: nat)"
  if "b < 256" "c < 256"
  using small(1) [OF that(1)] small(2) [OF that(2)] by simp

lemma regroup5:
  "(b mod 16 * 4 + c div 64) mod 4 * 64 + c mod 64 = (c :: nat)" if "c < 256"
  using small(2) [OF that] by simp

lemma sextet_bounds:
  "a < 256 \<Longrightarrow> a div 4 < (64 :: nat)"
  "a mod 4 * 16 < (64 :: nat)"
  "b < 256 \<Longrightarrow> a mod 4 * 16 + b div 16 < (64 :: nat)"
  "b mod 16 * 4 < (64 :: nat)"
  "c < 256 \<Longrightarrow> b mod 16 * 4 + c div 64 < (64 :: nat)"
  "c mod 64 < (64 :: nat)"
proof -
  have m4: "a mod 4 < 4" "b mod 16 < 16" by simp_all
  show "a < 256 \<Longrightarrow> a div 4 < (64 :: nat)" by (rule small(3))
  show "a mod 4 * 16 < (64 :: nat)" using m4(1) by linarith
  show "b < 256 \<Longrightarrow> a mod 4 * 16 + b div 16 < (64 :: nat)" using m4(1) small(1) [of b] by linarith
  show "b mod 16 * 4 < (64 :: nat)" using m4(2) by linarith
  show "c < 256 \<Longrightarrow> b mod 16 * 4 + c div 64 < (64 :: nat)" using m4(2) small(2) [of c] by linarith
  show "c mod 64 < (64 :: nat)" by simp
qed
lemma base64_round_trip:
  "\<forall>b \<in> set bytes. b < 256 \<Longrightarrow> base64_bytes (base64_text bytes) = bytes"
proof (induction bytes rule: base64_text.induct)
  case 1
  then show ?case by (simp add: base64_bytes_sextets sextets_Nil)
next
  case (2 a)
  then have a: "a < 256" by simp
  show ?case
    by (simp add: base64_bytes_sextets sextets_char sextets_pad sextet_bounds a regroup1)
next
  case (3 a b)
  then have a: "a < 256" and b: "b < 256" by simp_all
  show ?case
    using small(1) [OF b]
    by (simp add: base64_bytes_sextets sextets_char sextets_pad sextet_bounds a b)
next
  case (4 a b c bytes)
  then have a: "a < 256" and b: "b < 256" and c: "c < 256"
    and IH: "sextet_bytes (sextets (base64_text bytes)) = bytes"
    by (simp_all add: base64_bytes_sextets)
  show ?case
    using small(1) [OF b] small(2) [OF c]
    by (simp add: base64_bytes_sextets sextets_char sextet_bounds a b c IH)
qed

lemma utf8_bytes_ascii:
  "\<forall>c \<in> set s. char_code c < 128 \<Longrightarrow> utf8_bytes s = map char_code s"
  by (induction s) (simp_all add: utf8_bytes_def utf8_char_def)

lemma utf8_bytes_byte: "\<forall>b \<in> set (utf8_bytes s). b < 256"
proof -
  have "\<forall>b \<in> set (utf8_char c). b < 256" for c
  proof -
    have "char_code c mod 64 < 64" by simp
    moreover have "char_code c div 64 < 4"
      by (simp add: char_code_def div_less_iff_less_mult)
    moreover have "char_code c < 256" by (simp add: char_code_def)
    ultimately show ?thesis by (auto simp: utf8_char_def)
  qed
  then show ?thesis by (auto simp: utf8_bytes_def)
qed

lemma ascii_text_codes:
  "\<forall>c \<in> set s. char_code c < 128 \<Longrightarrow> ascii_text (map char_code s) = s"
  by (induction s) (simp_all add: ascii_text_def char_code_def)

lemma base64_ascii_round_trip:
  assumes "\<forall>c \<in> set s. char_code c < 128"
  shows "base64Decode (base64Encode s) = s"
proof -
  have "base64_bytes (base64_text (utf8_bytes s)) = utf8_bytes s"
    by (rule base64_round_trip) (rule utf8_bytes_byte)
  then show ?thesis
    by (simp add: base64Decode_def base64Encode_def utf8_bytes_ascii [OF assms] ascii_text_codes [OF assms])
qed

lemma base64_bytes_skips:
  assumes "unbase64 c = None" and "c \<noteq> CHR ''=''"
  shows "base64_bytes (a @ c # b) = base64_bytes (a @ b)"
proof -
  have "List.map_filter unbase64 (takeWhile (\<lambda>c. c \<noteq> CHR ''='') (a @ c # b))
      = List.map_filter unbase64 (takeWhile (\<lambda>c. c \<noteq> CHR ''='') (a @ b))"
    using assms by (induction a) (simp_all split: option.splits)
  then show ?thesis by (simp add: base64_bytes_def)
qed

lemmas json_eval =
  JSON_parse_def parse_value.simps parse_elements.simps parse_members.simps bind_result_def
  skip_ws_def is_json_space_def char_code_def parse_number_def parse_unsigned_def parse_escape_def
  unexpected_def unexpected_end_def is_digit_def starts_with_def spread_def hex_value_def
  quote_def quote_char_def hex_digit_def show_int_def show_nat.simps Let_def

lemmas base64_eval =
  base64Encode_def base64Decode_def utf8_bytes_def utf8_char_def base64_char_def
  base64_bytes_def unbase64_def ascii_text_def char_code_def Let_def char_of_def bit_0

subsection \<open>Numbers\<close>

lemma digit_char_code: "char_code (digit_char n) = 48 + n mod 10"
proof -
  have "n mod 10 < 10" by simp
  then have "48 + n mod 10 < 256" by linarith
  then show ?thesis by (simp add: char_code_def)
qed

lemma digit_char_is_digit: "is_digit (digit_char n)"
proof -
  have "n mod 10 < 10" by simp
  then have "48 + n mod 10 \<le> 57" by linarith
  then show ?thesis unfolding is_digit_def digit_char_code by simp
qed

lemma show_nat_digits: "\<forall>c \<in> set (show_nat n). is_digit c"
proof (induction n rule: show_nat.induct)
  case (1 n)
  show ?case
  proof (cases "n < 10")
    case True
    then show ?thesis by (subst show_nat.simps) (simp add: digit_char_is_digit del: digit_char.simps)
  next
    case False
    with 1 show ?thesis by (subst show_nat.simps) (simp add: digit_char_is_digit del: digit_char.simps)
  qed
qed

lemma show_nat_nonempty: "show_nat n \<noteq> []"
  by (subst show_nat.simps) simp

lemma show_nat_hd: "0 < n \<Longrightarrow> char_code (hd (show_nat n)) \<noteq> 48"
proof (induction n rule: show_nat.induct)
  case (1 n)
  show ?case
  proof (cases "n < 10")
    case True
    with 1(2) have "n mod 10 \<noteq> 0" by simp
    with True show ?thesis
      by (subst show_nat.simps) (simp add: digit_char_code del: digit_char.simps)
  next
    case False
    then have "0 < n div 10" by (simp add: div_greater_zero_iff)
    with 1(1) False have "char_code (hd (show_nat (n div 10))) \<noteq> 48" by simp
    with False show ?thesis
      by (subst show_nat.simps) (simp add: show_nat_nonempty)
  qed
qed

lemma digits_value_append: "digits_value (xs @ ys) acc = digits_value ys (digits_value xs acc)"
  by (induction xs arbitrary: acc) simp_all

lemma digits_value_show_nat: "digits_value (show_nat n) 0 = int n"
proof (induction n rule: show_nat.induct)
  case (1 n)
  show ?case
  proof (cases "n < 10")
    case True
    then show ?thesis
      by (subst show_nat.simps) (simp add: digit_char_code del: digit_char.simps)
  next
    case False
    with 1 have "digits_value (show_nat (n div 10)) 0 = int (n div 10)" by simp
    with False show ?thesis
      by (subst show_nat.simps)
         (simp add: digits_value_append digit_char_code zdiv_int zmod_int del: digit_char.simps)
  qed
qed

lemma follows_no_digit:
  "follows rest \<Longrightarrow> rest = [] \<or> (\<not> is_digit (hd rest) \<and> hd rest \<notin> set ''.eE'')"
  by (auto simp: follows_def is_digit_def char_code_def)

lemma takeWhile_digits:
  assumes "\<forall>c \<in> set ds. is_digit c" and "rest = [] \<or> \<not> is_digit (hd rest)"
  shows "takeWhile is_digit (ds @ rest) = ds"
proof -
  have "takeWhile is_digit rest = []" using assms(2) by (cases rest) auto
  with assms(1) show ?thesis by (simp add: takeWhile_append)
qed

lemma parse_nat_text:
  assumes f: "rest = [] \<or> \<not> is_digit (hd rest)"
  shows "(if show_nat m @ rest \<noteq> [] \<and> hd (show_nat m @ rest) = CHR ''0'' then ''0''
          else takeWhile is_digit (show_nat m @ rest)) = show_nat m"
proof (cases "m = 0")
  case True
  have "show_nat 0 = ''0''" by (subst show_nat.simps) (simp add: char_of_def bit_0)
  with True show ?thesis by simp
next
  case False
  then have "char_code (hd (show_nat m)) \<noteq> 48" by (intro show_nat_hd) simp
  then have "hd (show_nat m @ rest) \<noteq> CHR ''0''"
    by (auto simp: show_nat_nonempty char_code_def)
  moreover have "takeWhile is_digit (show_nat m @ rest) = show_nat m"
    using f by (intro takeWhile_digits show_nat_digits) auto
  ultimately show ?thesis by simp
qed

lemma show_nat_first_digit: "is_digit (hd (show_nat m))"
  using show_nat_digits [of m] show_nat_nonempty [of m] by (cases "show_nat m") auto

lemma parse_unsigned_show_nat:
  assumes b: "int m \<le> 2 ^ 53" and f: "follows rest"
  shows "parse_unsigned (show_nat m @ rest) = Inr (int m, rest)"
proof -
  from follows_no_digit [OF f]
  have nd: "rest = [] \<or> \<not> is_digit (hd rest)" and ne: "\<not> (rest \<noteq> [] \<and> hd rest \<in> set ''.eE'')"
    by auto
  note ds = parse_nat_text [OF nd, of m]
  have d: "drop (length (show_nat m)) (show_nat m @ rest) = rest" by simp
  show ?thesis
    unfolding parse_unsigned_def Let_def ds d
    using ne b by (simp add: show_nat_nonempty digits_value_show_nat)
qed

lemma parse_number_show_int:
  assumes f: "follows rest"
  shows "parse_number (show_int (int_of n) @ rest) = Inr (JNum n, rest)"
proof -
  define i where "i = int_of n"
  have b: "\<bar>i\<bar> \<le> 2 ^ 53" using int_of [of n] by (simp add: i_def)
  have n: "number_of i = n" by (simp add: i_def int_of_inverse)
  have "parse_number (show_int i @ rest) = Inr (JNum (number_of i), rest)"
  proof (cases "i < 0")
    case False
    let ?m = "nat i"
    have s: "show_int i = show_nat ?m" using False by (simp add: show_int_def)
    have h: "\<not> (show_nat ?m @ rest \<noteq> [] \<and> hd (show_nat ?m @ rest) = CHR ''-'')"
      using show_nat_first_digit [of ?m] show_nat_nonempty [of ?m]
      by (auto simp: is_digit_def char_code_def)
    have "int ?m \<le> 2 ^ 53" using b False by simp
    from parse_unsigned_show_nat [OF this f] False show ?thesis
      unfolding parse_number_def s by (simp only: h if_False) (simp add: bind_result_def)
  next
    case True
    let ?m = "nat (- i)"
    have s: "show_int i = CHR ''-'' # show_nat ?m" using True by (simp add: show_int_def)
    have "int ?m \<le> 2 ^ 53" using b True by simp
    from parse_unsigned_show_nat [OF this f] True show ?thesis
      unfolding parse_number_def s by (simp add: bind_result_def)
  qed
  then show ?thesis by (simp add: n flip: i_def)
qed

subsection \<open>Strings\<close>

lemma hex_value_hex_digit: "hex_value (hex_digit n) = Some (n mod 16)"
proof (cases "n mod 16 < 10")
  case True
  then show ?thesis by (auto simp: hex_value_def hex_digit_def char_code_def Let_def)
next
  case False
  moreover have "n mod 16 < 16" by simp
  ultimately show ?thesis by (auto simp: hex_value_def hex_digit_def char_code_def Let_def)
qed

lemma char_of_nibbles: "char_of (char_code c div 16 mod 16 * 16 + char_code c mod 16) = c"
proof -
  have "char_code c < 256" by (simp add: char_code_def)
  then have "char_code c div 16 < 16" by (simp add: div_less_iff_less_mult)
  then have "char_code c div 16 mod 16 * 16 + char_code c mod 16 = char_code c" by simp
  then show ?thesis by (simp add: char_code_def)
qed

lemma parse_escape_unicode:
  "parse_escape (CHR ''u'' # CHR ''0'' # CHR ''0'' # hex_digit (char_code c div 16) # hex_digit (char_code c) # cs)
     = Inr (c, cs)"
proof -
  have z: "hex_value CHR ''0'' = Some 0" by (simp add: hex_value_def char_code_def)
  show ?thesis
    by (simp add: parse_escape_def z hex_value_hex_digit char_of_nibbles)
qed

lemma parse_chars_quote_char:
  "parse_chars (quote_char c @ cs) = bind_result (parse_chars cs) (\<lambda>sr. Inr (c # fst sr, snd sr))"
proof -
  consider (quote) "c = CHR 0x22" | (backslash) "c = CHR 0x5C" | (b) "c = CHR 0x08"
    | (f) "c = CHR 0x0C" | (n) "c = CHR 0x0A" | (r) "c = CHR 0x0D" | (t) "c = CHR 0x09"
    | (control) "c \<noteq> CHR 0x22" "c \<noteq> CHR 0x5C" "c \<noteq> CHR 0x08" "c \<noteq> CHR 0x0C" "c \<noteq> CHR 0x0A"
        "c \<noteq> CHR 0x0D" "c \<noteq> CHR 0x09" "char_code c < 32"
    | (plain) "c \<noteq> CHR 0x22" "c \<noteq> CHR 0x5C" "c \<noteq> CHR 0x08" "c \<noteq> CHR 0x0C" "c \<noteq> CHR 0x0A"
        "c \<noteq> CHR 0x0D" "c \<noteq> CHR 0x09" "\<not> char_code c < 32"
    by blast
  then show ?thesis
  proof cases
    case quote
    then show ?thesis by (simp add: quote_char_def parse_escape_def)
  next
    case backslash
    then show ?thesis by (simp add: quote_char_def parse_escape_def)
  next
    case b
    then show ?thesis by (simp add: quote_char_def parse_escape_def)
  next
    case f
    then show ?thesis by (simp add: quote_char_def parse_escape_def)
  next
    case n
    then show ?thesis by (simp add: quote_char_def parse_escape_def)
  next
    case r
    then show ?thesis by (simp add: quote_char_def parse_escape_def)
  next
    case t
    then show ?thesis by (simp add: quote_char_def parse_escape_def)
  next
    case control
    then show ?thesis by (simp add: quote_char_def parse_escape_unicode)
  next
    case plain
    then show ?thesis by (simp add: quote_char_def)
  qed
qed

lemma parse_chars_quoted:
  "parse_chars (concat (map quote_char s) @ CHR 0x22 # rest) = Inr (s, rest)"
  by (induction s) (simp_all add: parse_chars_quote_char bind_result_def)

lemma parse_chars_quote: "parse_chars (tl (quote s) @ rest) = Inr (s, rest)"
  by (simp add: quote_def parse_chars_quoted)

lemma quote_Cons: "quote s = CHR 0x22 # tl (quote s)"
  by (simp add: quote_def)

subsection \<open>Values\<close>

lemma skip_ws_Cons: "\<not> is_json_space c \<Longrightarrow> skip_ws (c # cs) = c # cs"
  by (simp add: skip_ws_def)

lemma join_Cons: "ys \<noteq> [] \<Longrightarrow> join sep (y # ys) = y @ sep @ join sep ys"
  by (cases ys) simp_all

lemma show_int_hd: "\<exists>c cs. show_int n = c # cs \<and> (c = CHR ''-'' \<or> is_digit c)"
proof (cases "n < 0")
  case True
  then show ?thesis by (simp add: show_int_def)
next
  case False
  obtain c cs where "show_nat (nat n) = c # cs"
    using show_nat_nonempty [of "nat n"] by (cases "show_nat (nat n)") auto
  with show_nat_digits [of "nat n"] False show ?thesis by (auto simp: show_int_def)
qed

lemma stringify_opener: "\<exists>c cs. JSON_stringify t = c # cs \<and> opener c"
proof (cases t)
  case (JNum n)
  from show_int_hd [of "int_of n"]
  obtain c cs where "show_int (int_of n) = c # cs" "c = CHR ''-'' \<or> is_digit c"
    by blast
  with JNum show ?thesis
    by (auto simp: opener_def is_json_space_def is_digit_def char_code_def)
qed (auto simp: opener_def is_json_space_def char_code_def quote_def)

lemma join_opener:
  assumes "xs \<noteq> []" and "\<forall>x \<in> set xs. \<exists>c cs. f x = c # cs \<and> opener c"
  shows "\<exists>c cs. join sep (map f xs) = c # cs \<and> opener c"
proof -
  from assms(1) obtain x ys where xs: "xs = x # ys" by (cases xs) auto
  with assms(2) obtain c cs where c: "f x = c # cs" "opener c" by auto
  show ?thesis
  proof (cases ys)
    case Nil
    with xs c show ?thesis by simp
  next
    case (Cons y zs)
    with xs c show ?thesis by simp
  qed
qed

lemma follows_simps: "follows []" "follows (CHR '','' # cs)" "follows (CHR '']'' # cs)"
  "follows (CHR ''}'' # cs)"
  by (simp_all add: follows_def)

lemma not_space: "\<not> is_json_space CHR '',''" "\<not> is_json_space CHR '']''" "\<not> is_json_space CHR ''}''"
  "\<not> is_json_space CHR '':''" "\<not> is_json_space CHR 0x22" "\<not> is_json_space CHR ''[''"
  "\<not> is_json_space CHR ''{''"
  by (simp_all add: is_json_space_def char_code_def)

lemma parse_elements_join:
  assumes "xs \<noteq> []"
    and "\<forall>x \<in> set xs. \<forall>fuel rest. weight x \<le> fuel \<longrightarrow> follows rest \<longrightarrow>
           parse_value fuel (JSON_stringify x @ rest) = Inr (x, rest)"
    and "sum_list (map (\<lambda>x. Suc (weight x)) xs) \<le> fuel"
  shows "parse_elements fuel (join '','' (map JSON_stringify xs) @ CHR '']'' # rest) = Inr (xs, rest)"
  using assms
proof (induction xs arbitrary: fuel rule: list_nonempty_induct)
  case (single x)
  then have f: "weight x \<le> fuel - 1" "fuel \<noteq> 0" by simp_all
  have "parse_value (fuel - 1) (JSON_stringify x @ CHR '']'' # rest) = Inr (x, CHR '']'' # rest)"
    using single f by (simp add: follows_simps)
  with f show ?case
    by (subst parse_elements.simps) (simp add: bind_result_def skip_ws_Cons not_space)
next
  case (cons x xs)
  then have f: "weight x \<le> fuel - 1" "fuel \<noteq> 0"
    and g: "sum_list (map (\<lambda>x. Suc (weight x)) xs) \<le> fuel - 1" by simp_all
  let ?cs = "join '','' (map JSON_stringify xs) @ CHR '']'' # rest"
  have 1: "parse_value (fuel - 1) (JSON_stringify x @ CHR '','' # ?cs) = Inr (x, CHR '','' # ?cs)"
    using cons.prems(1) f by (simp add: follows_simps)
  have 2: "parse_elements (fuel - 1) ?cs = Inr (xs, rest)"
    using cons.prems(1) g by (intro cons.IH) simp_all
  have j: "join '','' (map JSON_stringify (x # xs)) @ CHR '']'' # rest
      = JSON_stringify x @ CHR '','' # ?cs"
    using cons.hyps by (simp add: join_Cons)
  show ?case
    unfolding j using f 1 2
    by (subst parse_elements.simps) (simp add: bind_result_def skip_ws_Cons not_space)
qed

lemma parse_members_join:
  assumes "kvs \<noteq> []"
    and "\<forall>kv \<in> set kvs. \<forall>fuel rest. weight (snd kv) \<le> fuel \<longrightarrow> follows rest \<longrightarrow>
           parse_value fuel (JSON_stringify (snd kv) @ rest) = Inr (snd kv, rest)"
    and "sum_list (map (\<lambda>kv. Suc (weight (snd kv))) kvs) \<le> fuel"
  shows "parse_members fuel (join '','' (map member kvs) @ CHR ''}'' # rest) = Inr (kvs, rest)"
  using assms
proof (induction kvs arbitrary: fuel rule: list_nonempty_induct)
  case (single kv)
  then have f: "weight (snd kv) \<le> fuel - 1" "fuel \<noteq> 0" by simp_all
  have 1: "parse_value (fuel - 1) (JSON_stringify (snd kv) @ CHR ''}'' # rest) = Inr (snd kv, CHR ''}'' # rest)"
    using single f by (simp add: follows_simps)
  have k: "parse_chars (tl (quote (fst kv)) @ CHR '':'' # JSON_stringify (snd kv) @ CHR ''}'' # rest)
      = Inr (fst kv, CHR '':'' # JSON_stringify (snd kv) @ CHR ''}'' # rest)"
    by (rule parse_chars_quote)
  have j: "join '','' (map member [kv]) @ CHR ''}'' # rest
      = CHR 0x22 # tl (quote (fst kv)) @ CHR '':'' # JSON_stringify (snd kv) @ CHR ''}'' # rest"
    by (simp add: member_def quote_def)
  show ?case
    unfolding j using f 1 k
    by (subst parse_members.simps) (simp add: bind_result_def skip_ws_Cons not_space)
next
  case (cons kv kvs)
  then have f: "weight (snd kv) \<le> fuel - 1" "fuel \<noteq> 0"
    and g: "sum_list (map (\<lambda>kv. Suc (weight (snd kv))) kvs) \<le> fuel - 1" by simp_all
  let ?cs = "join '','' (map member kvs) @ CHR ''}'' # rest"
  have 1: "parse_value (fuel - 1) (JSON_stringify (snd kv) @ CHR '','' # ?cs) = Inr (snd kv, CHR '','' # ?cs)"
    using cons.prems(1) f by (simp add: follows_simps)
  have 2: "parse_members (fuel - 1) ?cs = Inr (kvs, rest)"
    using cons.prems(1) g by (intro cons.IH) simp_all
  have k: "parse_chars (tl (quote (fst kv)) @ CHR '':'' # JSON_stringify (snd kv) @ CHR '','' # ?cs)
      = Inr (fst kv, CHR '':'' # JSON_stringify (snd kv) @ CHR '','' # ?cs)"
    by (rule parse_chars_quote)
  have j: "join '','' (map member (kv # kvs)) @ CHR ''}'' # rest
      = CHR 0x22 # tl (quote (fst kv)) @ CHR '':'' # JSON_stringify (snd kv) @ CHR '','' # ?cs"
    using cons.hyps by (simp add: join_Cons member_def quote_def)
  show ?case
    unfolding j using f 1 2 k
    by (subst parse_members.simps) (simp add: bind_result_def skip_ws_Cons not_space)
qed

lemma update_absent: "k \<notin> fst ` set al \<Longrightarrow> AList.update k v al = al @ [(k, v)]"
  by (induction al) auto

lemma spread_distinct: "distinct (map fst (acc @ kvs)) \<Longrightarrow> spread acc kvs = acc @ kvs"
proof (induction kvs arbitrary: acc)
  case Nil
  then show ?case by (simp add: spread_def)
next
  case (Cons kv kvs)
  then have k: "fst kv \<notin> fst ` set acc" and d: "distinct (map fst ((acc @ [kv]) @ kvs))"
    by auto
  have "spread acc (kv # kvs) = spread (AList.update (fst kv) (snd kv) acc) kvs"
    by (simp add: spread_def)
  also have "\<dots> = spread (acc @ [kv]) kvs" by (simp add: update_absent [OF k])
  also have "\<dots> = (acc @ [kv]) @ kvs" by (rule Cons.IH [OF d])
  finally show ?case by simp
qed

lemma parse_value_stringify:
  "well_formed t \<Longrightarrow> weight t \<le> fuel \<Longrightarrow> follows rest \<Longrightarrow>
     parse_value fuel (JSON_stringify t @ rest) = Inr (t, rest)"
proof (induction t arbitrary: fuel rest)
  case JNull
  then show ?case
    by (subst parse_value.simps)
       (simp add: skip_ws_def is_json_space_def char_code_def starts_with_def)
next
  case (JBool b)
  then show ?case
    by (subst parse_value.simps)
       (simp add: skip_ws_def is_json_space_def char_code_def starts_with_def)
next
  case (JNum n)
  from show_int_hd [of "int_of n"]
  obtain c cs where s: "show_int (int_of n) = c # cs" and c: "c = CHR ''-'' \<or> is_digit c"
    by blast
  from c have o: "\<not> is_json_space c" "c \<noteq> CHR 0x22" "c \<noteq> CHR ''[''" "c \<noteq> CHR ''{''"
    "c \<noteq> CHR ''n''" "c \<noteq> CHR ''t''" "c \<noteq> CHR ''f''"
    by (auto simp: is_json_space_def is_digit_def char_code_def)
  have p: "parse_number (c # cs @ rest) = Inr (JNum n, rest)"
    using parse_number_show_int [of rest n] JNum.prems s by simp
  show ?case
    using JNum.prems o c p
    by (subst parse_value.simps) (simp add: s skip_ws_Cons starts_with_def)
next
  case (JStr s)
  have "parse_chars (tl (quote s) @ rest) = Inr (s, rest)" by (rule parse_chars_quote)
  with JStr.prems show ?case
    by (subst parse_value.simps) (simp add: quote_def skip_ws_Cons not_space bind_result_def)
next
  case (JArr xs)
  show ?case
  proof (cases "xs = []")
    case True
    with JArr.prems show ?thesis
      by (subst parse_value.simps) (simp add: skip_ws_Cons not_space)
  next
    case False
    let ?cs = "join '','' (map JSON_stringify xs) @ CHR '']'' # rest"
    from join_opener [OF False, of JSON_stringify "'',''"] stringify_opener
    obtain c cs where j: "join '','' (map JSON_stringify xs) = c # cs" and o: "opener c" by blast
    then have h: "skip_ws ?cs = ?cs" "hd ?cs \<noteq> CHR '']''" "?cs \<noteq> []"
      by (simp_all add: opener_def skip_ws_Cons)
    have "parse_elements (fuel - 1) ?cs = Inr (xs, rest)"
      using False JArr by (intro parse_elements_join) auto
    with JArr.prems h show ?thesis
      by (subst parse_value.simps) (simp add: skip_ws_Cons not_space bind_result_def)
  qed
next
  case (JObj kvs)
  show ?case
  proof (cases "kvs = []")
    case True
    with JObj.prems show ?thesis
      by (subst parse_value.simps) (simp add: skip_ws_Cons not_space)
  next
    case False
    let ?cs = "join '','' (map member kvs) @ CHR ''}'' # rest"
    have "\<forall>kv \<in> set kvs. \<exists>c cs. member kv = c # cs \<and> opener c"
      by (simp add: member_def quote_def opener_def not_space)
    from join_opener [OF False this, of "'',''"]
    obtain c cs where j: "join '','' (map member kvs) = c # cs" and o: "opener c" by blast
    then have h: "skip_ws ?cs = ?cs" "hd ?cs \<noteq> CHR ''}''" "?cs \<noteq> []"
      by (simp_all add: opener_def skip_ws_Cons)
    have ih: "\<forall>kv \<in> set kvs. \<forall>fuel rest. weight (snd kv) \<le> fuel \<longrightarrow> follows rest \<longrightarrow>
           parse_value fuel (JSON_stringify (snd kv) @ rest) = Inr (snd kv, rest)"
    proof (intro ballI allI impI)
      fix kv fuel rest
      assume kv: "kv \<in> set kvs" and w: "weight (snd kv) \<le> fuel" and f: "follows rest"
      have "snd kv \<in> Basic_BNFs.snds kv" by (cases kv) simp
      moreover have "well_formed (snd kv)" using JObj.prems(1) kv by simp
      ultimately show "parse_value fuel (JSON_stringify (snd kv) @ rest) = Inr (snd kv, rest)"
        using JObj.IH [OF kv] w f by blast
    qed
    have "parse_members (fuel - 1) ?cs = Inr (kvs, rest)"
      using False ih JObj.prems(2) by (intro parse_members_join) auto
    moreover have "spread [] kvs = kvs"
      using JObj.prems(1) spread_distinct [of "[]" kvs] by simp
    moreover have "JSON_stringify (JObj kvs) @ rest = CHR ''{'' # ?cs"
    proof -
      have "member = (\<lambda>kv. quote (fst kv) @ '':'' @ JSON_stringify (snd kv))"
        by (rule ext) (simp add: member_def)
      then show ?thesis by simp
    qed
    ultimately show ?thesis
      using JObj.prems h
      by (subst parse_value.simps) (simp add: skip_ws_Cons not_space bind_result_def)
  qed
qed

lemma sum_join: "(\<Sum>y\<leftarrow>ys. Suc (length y)) \<le> Suc (length (join '','' ys))"
  by (induction "'',''" ys rule: join.induct) simp_all

lemma sum_double: "(\<Sum>x\<leftarrow>xs. 2 * Suc (length (f x))) = 2 * (\<Sum>y\<leftarrow>map f xs. Suc (length y))"
  by (induction xs) simp_all

lemma stringify_nonempty: "JSON_stringify t \<noteq> []"
  using stringify_opener [of t] by auto

lemma weight_le: "weight t \<le> 2 * length (JSON_stringify t)"
proof (induction t)
  case (JNum n)
  have "show_int (int_of n) \<noteq> []" using stringify_nonempty [of "JNum n"] by simp
  then show ?case by (cases "show_int (int_of n)") simp_all
next
  case (JArr xs)
  have "(\<Sum>x\<leftarrow>xs. Suc (weight x)) \<le> (\<Sum>x\<leftarrow>xs. 2 * Suc (length (JSON_stringify x)))"
  proof (rule sum_list_mono)
    fix x assume "x \<in> set xs"
    from JArr [OF this] show "Suc (weight x) \<le> 2 * Suc (length (JSON_stringify x))" by simp
  qed
  also have "\<dots> = 2 * (\<Sum>y\<leftarrow>map JSON_stringify xs. Suc (length y))"
    by (rule sum_double)
  also have "\<dots> \<le> 2 * Suc (length (join '','' (map JSON_stringify xs)))"
    using sum_join [of "map JSON_stringify xs"] by simp
  finally show ?case by simp
next
  case (JObj kvs)
  have "(\<Sum>kv\<leftarrow>kvs. Suc (weight (snd kv))) \<le> (\<Sum>kv\<leftarrow>kvs. 2 * Suc (length (member kv)))"
  proof (rule sum_list_mono)
    fix kv assume kv: "kv \<in> set kvs"
    have "snd kv \<in> Basic_BNFs.snds kv" by (cases kv) simp
    from JObj [OF kv this] show "Suc (weight (snd kv)) \<le> 2 * Suc (length (member kv))"
      by (simp add: member_def)
  qed
  also have "\<dots> = 2 * (\<Sum>y\<leftarrow>map member kvs. Suc (length y))"
    by (rule sum_double)
  also have "\<dots> \<le> 2 * Suc (length (join '','' (map member kvs)))"
    using sum_join [of "map member kvs"] by simp
  finally have "(\<Sum>kv\<leftarrow>kvs. Suc (weight (snd kv))) \<le> 2 * Suc (length (join '','' (map member kvs)))" .
  moreover have "member = (\<lambda>kv. quote (fst kv) @ '':'' @ JSON_stringify (snd kv))"
    by (rule ext) (simp add: member_def)
  ultimately show ?case by simp
qed (simp_all add: quote_def)

lemma JSON_round_trip: "well_formed t \<Longrightarrow> JSON_parse (JSON_stringify t) = Inr t"
proof -
  assume wf: "well_formed t"
  have "weight t \<le> 2 * length (JSON_stringify t) + 2" using weight_le [of t] by simp
  from parse_value_stringify [OF wf this, of "[]"]
  show ?thesis by (simp add: JSON_parse_def follows_def bind_result_def skip_ws_def)
qed

lemma set_join: "set (join sep ys) \<subseteq> set sep \<union> \<Union> (set ` set ys)"
  by (induction sep ys rule: join.induct) auto

lemma hex_digit_ascii: "char_code (hex_digit n) < 128"
proof -
  have "n mod 16 < 16" by simp
  then show ?thesis by (auto simp: hex_digit_def char_code_def)
qed

lemma quote_char_ascii: "char_code c < 128 \<Longrightarrow> \<forall>d \<in> set (quote_char c). char_code d < 128"
  using hex_digit_ascii by (auto simp: quote_char_def char_code_def)

lemma quote_ascii: "\<forall>c \<in> set s. char_code c < 128 \<Longrightarrow> \<forall>d \<in> set (quote s). char_code d < 128"
  using quote_char_ascii by (auto simp: quote_def char_code_def)

lemma show_int_ascii: "\<forall>d \<in> set (show_int n). char_code d < 128"
proof -
  have "char_code d < 128" if "d \<in> set (show_nat m)" for d m
    using show_nat_digits [of m] that by (fastforce simp: is_digit_def)
  then show ?thesis by (auto simp: show_int_def char_code_def)
qed

lemma stringify_ascii: "ascii_only t \<Longrightarrow> \<forall>d \<in> set (JSON_stringify t). char_code d < 128"
proof (induction t)
  case (JNum n)
  then show ?case using show_int_ascii by simp
next
  case (JStr s)
  then show ?case using quote_ascii [of s] by simp
next
  case (JArr xs)
  have "\<forall>d \<in> set (join '','' (map JSON_stringify xs)). char_code d < 128"
  proof
    fix d assume "d \<in> set (join '','' (map JSON_stringify xs))"
    with set_join [of "'',''" "map JSON_stringify xs"]
    have "d = CHR '','' \<or> (\<exists>x \<in> set xs. d \<in> set (JSON_stringify x))" by auto
    with JArr show "char_code d < 128" by (auto simp: char_code_def)
  qed
  then show ?case by (auto simp: char_code_def)
next
  case (JObj kvs)
  have m: "\<forall>d \<in> set (member kv). char_code d < 128" if kv: "kv \<in> set kvs" for kv
  proof -
    have "snd kv \<in> Basic_BNFs.snds kv" by (cases kv) simp
    with JObj.IH [OF kv] JObj.prems kv have "\<forall>d \<in> set (JSON_stringify (snd kv)). char_code d < 128"
      by auto
    moreover have "\<forall>d \<in> set (quote (fst kv)). char_code d < 128"
      using JObj.prems kv by (intro quote_ascii) auto
    ultimately show ?thesis by (auto simp: member_def char_code_def)
  qed
  have "\<forall>d \<in> set (join '','' (map member kvs)). char_code d < 128"
  proof
    fix d assume "d \<in> set (join '','' (map member kvs))"
    with set_join [of "'',''" "map member kvs"]
    have "d = CHR '','' \<or> (\<exists>kv \<in> set kvs. d \<in> set (member kv))" by auto
    with m show "char_code d < 128" by (auto simp: char_code_def)
  qed
  moreover have "member = (\<lambda>kv. quote (fst kv) @ '':'' @ JSON_stringify (snd kv))"
    by (rule ext) (simp add: member_def)
  ultimately show ?case by (auto simp: char_code_def)
qed (auto simp: char_code_def)

lemma base64_bytes_stops: "base64_bytes (a @ CHR ''='' # b) = base64_bytes a"
proof -
  have "takeWhile (\<lambda>c. c \<noteq> CHR ''='') (a @ CHR ''='' # b) = takeWhile (\<lambda>c. c \<noteq> CHR ''='') a"
    by (induction a) simp_all
  then show ?thesis by (simp add: base64_bytes_def)
qed

text \<open>
  Claim C4, as the code has it. For a token in which every string and key is made of
  ASCII characters (and every object has each key once, as an object has),
  \<open>fromCursor\<close> undoes \<open>toCursor\<close>, and \<open>toCursor\<close> gives the cursor back from the
  decoded token. \<open>fromCursor\<close> does not check the encoding of its argument: a
  character outside the base64 alphabet is skipped, and the text from the first \<open>=\<close>
  on is ignored.
\<close>

theorem cursor_round_trip:
  assumes wf: "well_formed token" and ascii: "ascii_only token"
  shows "fromCursor (toCursor token) = Inr token
       \<and> map_sum id toCursor (fromCursor (toCursor token)) = Inr (toCursor token)
       \<and> (\<forall>a b c. unbase64 c = None \<and> c \<noteq> CHR ''='' \<longrightarrow> fromCursor (a @ c # b) = fromCursor (a @ b))
       \<and> (\<forall>a b. fromCursor (a @ CHR ''='' # b) = fromCursor a)"
proof -
  have "base64Decode (base64Encode (JSON_stringify token)) = JSON_stringify token"
    by (rule base64_ascii_round_trip) (rule stringify_ascii [OF ascii])
  then have "fromCursor (toCursor token) = Inr token"
    by (simp add: fromCursor_def toCursor_def JSON_round_trip [OF wf])
  moreover have "fromCursor (a @ c # b) = fromCursor (a @ b)"
    if "unbase64 c = None \<and> c \<noteq> CHR ''=''" for a b c
    using that by (simp add: fromCursor_def base64Decode_def base64_bytes_skips)
  moreover have "fromCursor (a @ CHR ''='' # b) = fromCursor a" for a b
    by (simp add: fromCursor_def base64Decode_def base64_bytes_stops)
  ultimately show ?thesis by simp
qed

theorem cursor_round_trip_witness:
  "fromCursor (toCursor (JObj [(''pk'', JStr ''user#42''), (''n'', JArr [JNum (number_of (- 7)), JNull])]))
     = Inr (JObj [(''pk'', JStr ''user#42''), (''n'', JArr [JNum (number_of (- 7)), JNull])])"
proof -
  let ?token = "JObj [(''pk'', JStr ''user#42''), (''n'', JArr [JNum (number_of (- 7)), JNull])]"
  have h1: "well_formed ?token" by simp
  have h2: "ascii_only ?token" by (simp add: char_code_def)
  from cursor_round_trip [OF h1 h2] show ?thesis by simp
qed

text \<open>
  Claim C4 as stated fails twice: a token with a character above U+007F does not come
  back (\<open>base64Encode\<close> writes UTF-8, \<open>base64Decode\<close> reads the bytes as ASCII and
  drops the highest bit of each), and a text that is not valid base64 is decoded
  without any error.
\<close>

theorem cursor_counterexample:
  "fromCursor (toCursor (JObj [(''pk'', JStr [CHR 0xE9])])) = Inr (JObj [(''pk'', JStr ''C)'')])
   \<and> fromCursor ''M*Q='' = Inr (JNum (number_of 1))"
proof -
  have js: "JSON_stringify (JObj [(''pk'', JStr [CHR 0xE9])]) = ''{\"pk\":\"'' @ [CHR 0xE9] @ ''\"}''"
    by (simp add: json_eval)
  have enc: "base64Encode (''{\"pk\":\"'' @ [CHR 0xE9] @ ''\"}'') = ''eyJwayI6IsOpIn0=''"
    by (simp add: base64_eval)
  have dec: "base64Decode ''eyJwayI6IsOpIn0='' = ''{\"pk\":\"C)\"}''"
    by (simp add: base64_eval)
  have parse: "JSON_parse ''{\"pk\":\"C)\"}'' = Inr (JObj [(''pk'', JStr ''C)'')])"
    by (simp add: json_eval)
  have a: "fromCursor (toCursor (JObj [(''pk'', JStr [CHR 0xE9])])) = Inr (JObj [(''pk'', JStr ''C)'')])"
    by (simp only: fromCursor_def toCursor_def js enc dec parse)
  have dec1: "base64Decode ''M*Q='' = ''1''"
    by (simp add: base64_eval)
  have parse1: "JSON_parse ''1'' = Inr (JNum (number_of 1))"
    by (simp add: json_eval)
  have b: "fromCursor ''M*Q='' = Inr (JNum (number_of 1))"
    by (simp only: fromCursor_def dec1 parse1)
  from a b show ?thesis by simp
qed


end
